theory Spec2Isabelle
  imports Main "HOL-Library.State_Monad"
begin

section \<open>JavaScript values and strings\<close>

text \<open>
  The analyzer of \<^verbatim>\<open>src/sql-query-analyzer.js\<close> is a class with one field
  (\<^verbatim>\<open>sqlKeywords\<close>) and seven methods. A JavaScript string is a sequence of code
  units; it is modelled as a \<^typ>\<open>string\<close> whose characters are the code units below
  256 (Latin-1). On these, the whitespace class of \<^verbatim>\<open>\s\<close> and \<^verbatim>\<open>trim()\<close> is
  tab, line feed, vertical tab, form feed, carriage return, space and the no-break
  space; \<^verbatim>\<open>\w\<close> is \<^verbatim>\<open>[A-Za-z0-9_]\<close>; the line terminators are line feed and
  carriage return.

  The argument of \<^verbatim>\<open>analyzeQuery\<close> is any JavaScript value, since the method
  itself tests \<^verbatim>\<open>typeof query\<close>.
\<close>

datatype js_value =
    JSUndefined
  | JSNull
  | JSBoolean bool
  | JSNumber int
  | JSNaN
  | JSString string
  | JSObject

text \<open>\<^verbatim>\<open>!query\<close> is true exactly on the falsy values.\<close>

fun truthy :: "js_value \<Rightarrow> bool" where
  "truthy JSUndefined = False"
| "truthy JSNull = False"
| "truthy (JSBoolean b) = b"
| "truthy (JSNumber n) = (n \<noteq> 0)"
| "truthy JSNaN = False"
| "truthy (JSString s) = (s \<noteq> [])"
| "truthy JSObject = True"

fun typeof :: "js_value \<Rightarrow> string" where
  "typeof JSUndefined = ''undefined''"
| "typeof JSNull = ''object''"
| "typeof (JSBoolean b) = ''boolean''"
| "typeof (JSNumber n) = ''number''"
| "typeof JSNaN = ''number''"
| "typeof (JSString s) = ''string''"
| "typeof JSObject = ''object''"

subsection \<open>Character classes\<close>

definition is_space :: "char \<Rightarrow> bool" where
  "is_space c =
     (c \<in> set [CHR 0x09, CHR 0x0A, CHR 0x0B, CHR 0x0C, CHR 0x0D, CHR '' '', CHR 0xA0])"

text \<open>The dot of a regular expression matches everything but a line terminator.\<close>

definition is_line_terminator :: "char \<Rightarrow> bool" where
  "is_line_terminator c = (c \<in> set [CHR 0x0A, CHR 0x0D])"

definition lower_letters :: string where
  "lower_letters = ''abcdefghijklmnopqrstuvwxyz''"

definition upper_letters :: string where
  "upper_letters = ''ABCDEFGHIJKLMNOPQRSTUVWXYZ''"

definition is_letter_or_underscore :: "char \<Rightarrow> bool" where
  "is_letter_or_underscore c = (c \<in> set (lower_letters @ upper_letters @ ''_''))"

definition is_digit :: "char \<Rightarrow> bool" where
  "is_digit c = (c \<in> set ''0123456789'')"

definition is_word :: "char \<Rightarrow> bool" where
  "is_word c = (is_letter_or_underscore c \<or> is_digit c)"

text \<open>
  Under the flag \<^verbatim>\<open>i\<close> a pattern letter matches a character with the same upper
  case. The patterns of this program compare with the letters \<^verbatim>\<open>A\<close> and
  \<^verbatim>\<open>S\<close> only, which no character other than the two ASCII forms maps to.
\<close>

definition upper_char :: "char \<Rightarrow> char" where
  "upper_char c = (case map_of (zip lower_letters upper_letters) c of Some u \<Rightarrow> u | None \<Rightarrow> c)"

text \<open>
  \<^verbatim>\<open>toUpperCase\<close> and \<^verbatim>\<open>toLowerCase\<close> on the code units below 256: the 26
  letters and the accented letters \<^verbatim>\<open>0xE0..0xFE\<close> (but the division sign) change
  case, and the sharp s \<^verbatim>\<open>0xDF\<close> becomes \<^verbatim>\<open>SS\<close>, which makes the upper-case
  text longer. The upper-case forms of the micro sign \<^verbatim>\<open>0xB5\<close> and of
  \<^verbatim>\<open>0xFF\<close> are code units above 255; the two are left in place, since the program
  only trims upper-case text and compares it with ASCII text, and neither they nor
  their upper-case forms are whitespace or ASCII.
\<close>

definition latin1_lower :: string where
  "latin1_lower = [
      CHR 0xE0, CHR 0xE1, CHR 0xE2, CHR 0xE3, CHR 0xE4, CHR 0xE5, CHR 0xE6, CHR 0xE7,
      CHR 0xE8, CHR 0xE9, CHR 0xEA, CHR 0xEB, CHR 0xEC, CHR 0xED, CHR 0xEE, CHR 0xEF,
      CHR 0xF0, CHR 0xF1, CHR 0xF2, CHR 0xF3, CHR 0xF4, CHR 0xF5, CHR 0xF6, CHR 0xF8,
      CHR 0xF9, CHR 0xFA, CHR 0xFB, CHR 0xFC, CHR 0xFD, CHR 0xFE]"

definition latin1_upper :: string where
  "latin1_upper = [
      CHR 0xC0, CHR 0xC1, CHR 0xC2, CHR 0xC3, CHR 0xC4, CHR 0xC5, CHR 0xC6, CHR 0xC7,
      CHR 0xC8, CHR 0xC9, CHR 0xCA, CHR 0xCB, CHR 0xCC, CHR 0xCD, CHR 0xCE, CHR 0xCF,
      CHR 0xD0, CHR 0xD1, CHR 0xD2, CHR 0xD3, CHR 0xD4, CHR 0xD5, CHR 0xD6, CHR 0xD8,
      CHR 0xD9, CHR 0xDA, CHR 0xDB, CHR 0xDC, CHR 0xDD, CHR 0xDE]"

definition upper_units :: "char \<Rightarrow> string" where
  "upper_units c =
     (if c = CHR 0xDF then ''SS''
      else [case map_of (zip (lower_letters @ latin1_lower) (upper_letters @ latin1_upper)) c of
              Some u \<Rightarrow> u
            | None \<Rightarrow> c])"

definition lower_char :: "char \<Rightarrow> char" where
  "lower_char c =
     (case map_of (zip (upper_letters @ latin1_upper) (lower_letters @ latin1_lower)) c of
        Some l \<Rightarrow> l
      | None \<Rightarrow> c)"

definition toUpperCase :: "string \<Rightarrow> string" where
  "toUpperCase s = concat (map upper_units s)"

definition toLowerCase :: "string \<Rightarrow> string" where
  "toLowerCase s = map lower_char s"

subsection \<open>String methods\<close>

definition trim :: "string \<Rightarrow> string" where
  "trim s = rev (dropWhile is_space (rev (dropWhile is_space s)))"

definition startsWith :: "string \<Rightarrow> string \<Rightarrow> bool" where
  "startsWith s p = (take (length p) s = p)"

text \<open>
  \<^verbatim>\<open>s.substring(a, b)\<close> clamps both indices to the length and swaps them when
  \<^verbatim>\<open>a > b\<close>. The indices of this program are never negative.
\<close>

definition substring :: "string \<Rightarrow> nat \<Rightarrow> nat \<Rightarrow> string" where
  "substring s a b =
     (let a' = min a (length s); b' = min b (length s)
      in take (max a' b' - min a' b') (drop (min a' b') s))"

text \<open>\<^verbatim>\<open>indexOf\<close> and \<^verbatim>\<open>lastIndexOf\<close>: \<open>None\<close> stands for \<^verbatim>\<open>-1\<close>.\<close>

fun indexOf :: "string \<Rightarrow> string \<Rightarrow> nat option" where
  "indexOf [] p = (if p = [] then Some 0 else None)"
| "indexOf (c # cs) p =
     (if startsWith (c # cs) p then Some 0 else map_option Suc (indexOf cs p))"

fun lastIndexOf :: "string \<Rightarrow> char \<Rightarrow> nat option" where
  "lastIndexOf [] x = None"
| "lastIndexOf (c # cs) x =
     (case lastIndexOf cs x of
        Some k \<Rightarrow> Some (Suc k)
      | None \<Rightarrow> if c = x then Some 0 else None)"

text \<open>
  \<^verbatim>\<open>s.replace(/\s+/g, ' ')\<close>: scanning from the left, every match of
  \<^verbatim>\<open>\s+\<close> (greedy, so the whole run) is replaced by one space.
\<close>

function replace_ws_runs :: "string \<Rightarrow> string" where
  "replace_ws_runs [] = []"
| "replace_ws_runs (c # cs) =
     (if is_space c then CHR '' '' # replace_ws_runs (dropWhile is_space cs)
      else c # replace_ws_runs cs)"
  by pat_completeness auto
termination
  by (relation "measure length") (auto simp: less_Suc_eq_le length_dropWhile_le)

text \<open>\<^verbatim>\<open>s.replace(/x/g, ' ')\<close> for a single character \<^verbatim>\<open>x\<close>.\<close>

definition replace_char :: "char \<Rightarrow> char \<Rightarrow> string \<Rightarrow> string" where
  "replace_char x y s = map (\<lambda>c. if c = x then y else c) s"

text \<open>
  \<^verbatim>\<open>s.split(/\s+/)\<close>: the pieces between the whitespace runs; a run at the
  start or at the end leaves an empty first or last piece, and the empty string gives
  one empty piece.
\<close>

function split_ws :: "string \<Rightarrow> string list" where
  "split_ws s =
     (case dropWhile (\<lambda>c. \<not> is_space c) s of
        [] \<Rightarrow> [s]
      | r # rs \<Rightarrow> takeWhile (\<lambda>c. \<not> is_space c) s # split_ws (dropWhile is_space rs))"
  by pat_completeness auto
termination
proof (relation "measure length")
  fix s :: string and r rs
  assume a: "dropWhile (\<lambda>c. \<not> is_space c) s = r # rs"
  have "length (dropWhile is_space rs) \<le> length rs"
    by (rule length_dropWhile_le)
  moreover have "length (r # rs) \<le> length s"
    unfolding a [symmetric] by (rule length_dropWhile_le)
  ultimately show "(dropWhile is_space rs, s) \<in> measure length"
    by simp
qed simp

declare split_ws.simps [simp del]

section \<open>The analyzer\<close>

record analyzer =
  sqlKeywords :: "string list"

definition SQLQueryAnalyzer :: analyzer where
  "SQLQueryAnalyzer = \<lparr> sqlKeywords =
     [''FROM'', ''WHERE'', ''GROUP'', ''HAVING'', ''ORDER'', ''LIMIT'',
      ''OFFSET'', ''UNION'', ''INTERSECT'', ''EXCEPT'', ''JOIN'', ''INNER'',
      ''LEFT'', ''RIGHT'', ''FULL'', ''OUTER'', ''ON'', ''USING''] \<rparr>"

subsection \<open>cleanQuery and isSelectQuery\<close>

definition cleanQuery :: "string \<Rightarrow> string" where
  "cleanQuery query =
     replace_char (CHR 0x09) (CHR '' '')
       (replace_char (CHR 0x0A) (CHR '' '')
         (replace_ws_runs (trim query)))"

definition isSelectQuery :: "string \<Rightarrow> bool" where
  "isSelectQuery query = startsWith (trim (toUpperCase query)) ''SELECT''"

subsection \<open>The scanner state shared by both loops\<close>

text \<open>
  Both loops keep \<^verbatim>\<open>parenthesesLevel\<close>, \<^verbatim>\<open>inQuotes\<close> and \<^verbatim>\<open>quoteChar\<close>
  and update them with the same statements. \<^verbatim>\<open>quoteChar\<close> is \<open>None\<close> for the
  empty string, and so is \<^verbatim>\<open>prevChar\<close> at index 0.
\<close>

type_synonym quote_state = "bool \<times> char option"

definition handle_quotes :: "char \<Rightarrow> char option \<Rightarrow> quote_state \<Rightarrow> quote_state" where
  "handle_quotes char prevChar q =
     (if (char = CHR 0x22 \<or> char = CHR 0x27) \<and> prevChar \<noteq> Some (CHR 0x5C) then
        (if \<not> fst q then (True, Some char)
         else if Some char = snd q then (False, None)
         else q)
      else q)"

definition track_parentheses :: "char \<Rightarrow> int \<Rightarrow> int" where
  "track_parentheses char parenthesesLevel =
     (if char = CHR ''('' then parenthesesLevel + 1
      else if char = CHR '')'' then parenthesesLevel - 1
      else parenthesesLevel)"

definition prevChar_at :: "string \<Rightarrow> nat \<Rightarrow> char option" where
  "prevChar_at s i = (if i > 0 then Some (s ! (i - 1)) else None)"

subsection \<open>extractSelectClause\<close>

text \<open>
  The loop of \<^verbatim>\<open>extractSelectClause\<close>, from index \<open>i\<close>; it returns
  \<^verbatim>\<open>selectEnd\<close>. The bound \<^verbatim>\<open>i < query.length - 4\<close> is \<open>i + 4 < length query\<close>.
\<close>

function find_select_end :: "string \<Rightarrow> nat \<Rightarrow> int \<Rightarrow> quote_state \<Rightarrow> nat" where
  "find_select_end query i parenthesesLevel q =
     (if i + 4 < length query then
        (let char = query ! i;
             q' = handle_quotes char (prevChar_at query i) q
         in if \<not> fst q' then
              (let level' = track_parentheses char parenthesesLevel
               in if level' = 0 \<and> startsWith (toUpperCase (drop i query)) '' FROM ''
                  then i
                  else find_select_end query (i + 1) level' q')
            else find_select_end query (i + 1) parenthesesLevel q')
      else length query)"
  by pat_completeness auto
termination
  by (relation "measure (\<lambda>(query, i, l, q). length query - i)") auto

declare find_select_end.simps [simp del]

definition selectStart_of :: "string \<Rightarrow> nat" where
  "selectStart_of query =
     (case indexOf (toUpperCase query) ''SELECT'' of Some k \<Rightarrow> k + 6 | None \<Rightarrow> 5)"

definition extractSelectClause :: "string \<Rightarrow> string" where
  "extractSelectClause query =
     (let selectStart = selectStart_of query;
          selectEnd = find_select_end query selectStart 0 (False, None)
      in trim (substring query selectStart selectEnd))"

subsection \<open>splitSelectColumns\<close>

text \<open>
  The loop of \<^verbatim>\<open>splitSelectColumns\<close>, from index \<open>i\<close>, with the list
  \<^verbatim>\<open>parts\<close> and the buffer \<^verbatim>\<open>currentPart\<close>; it returns both as the loop
  leaves them.
\<close>

function split_loop ::
  "string \<Rightarrow> nat \<Rightarrow> string list \<Rightarrow> string \<Rightarrow> int \<Rightarrow> quote_state \<Rightarrow> string list \<times> string" where
  "split_loop selectClause i parts currentPart parenthesesLevel q =
     (if i < length selectClause then
        (let char = selectClause ! i;
             q' = handle_quotes char (prevChar_at selectClause i) q
         in if \<not> fst q' then
              (let level' = track_parentheses char parenthesesLevel
               in if char = CHR '','' \<and> level' = 0
                  then split_loop selectClause (i + 1) (parts @ [trim currentPart]) [] level' q'
                  else split_loop selectClause (i + 1) parts (currentPart @ [char]) level' q')
            else split_loop selectClause (i + 1) parts (currentPart @ [char]) parenthesesLevel q')
      else (parts, currentPart))"
  by pat_completeness auto
termination
  by (relation "measure (\<lambda>(s, i, ps, cur, l, q). length s - i)") auto

declare split_loop.simps [simp del]

definition splitSelectColumns :: "string \<Rightarrow> string list" where
  "splitSelectColumns selectClause =
     (let (parts, currentPart) = split_loop selectClause 0 [] [] 0 (False, None)
      in if trim currentPart \<noteq> [] then parts @ [trim currentPart] else parts)"

subsection \<open>extractColumnName\<close>

definition word_plus :: "string \<Rightarrow> bool" where
  "word_plus s = (s \<noteq> [] \<and> list_all is_word s)"

text \<open>
  The two alias patterns end in the same fragment, \<^verbatim>\<open>AS\s+(\w+)$\<close> under the flag
  \<^verbatim>\<open>i\<close>. \<open>as_word_end\<close> matches it at the start of its argument and returns the
  group: the greedy \<^verbatim>\<open>\s+\<close> takes the whole run, since a shorter one leaves a
  space before \<^verbatim>\<open>\w+\<close>.
\<close>

definition as_word_end :: "string \<Rightarrow> string option" where
  "as_word_end s =
     (case s of
        a # b # r \<Rightarrow>
          if upper_char a = CHR ''A'' \<and> upper_char b = CHR ''S''
             \<and> takeWhile is_space r \<noteq> [] \<and> word_plus (dropWhile is_space r)
          then Some (dropWhile is_space r) else None
      | _ \<Rightarrow> None)"

text \<open>
  \<^verbatim>\<open>/^(?:AS\s+)?(\w+)$/i\<close>, returning group 1. The optional group is tried first.
\<close>

definition match_optional_as :: "string \<Rightarrow> string option" where
  "match_optional_as s =
     (case as_word_end s of
        Some w \<Rightarrow> Some w
      | None \<Rightarrow> if word_plus s then Some s else None)"

text \<open>\<^verbatim>\<open>/^(\w+)$/\<close>, returning group 1.\<close>

definition match_word_only :: "string \<Rightarrow> string option" where
  "match_word_only s = (if word_plus s then Some s else None)"

text \<open>
  \<^verbatim>\<open>/^(.+?)\s+AS\s+(\w+)$/i\<close>, returning group 2. \<open>as_tail\<close> is the part
  after the lazy group, matched at the start of its argument: the greedy
  \<^verbatim>\<open>\s+\<close> takes the whole run, since the next character stands for a
  non-space. \<open>as_search\<close> is the lazy group: it takes one more character (never a
  line terminator) and tries the tail, shortest first.
\<close>

definition as_tail :: "string \<Rightarrow> string option" where
  "as_tail s =
     (if takeWhile is_space s = [] then None
      else as_word_end (dropWhile is_space s))"

fun as_search :: "string \<Rightarrow> string option" where
  "as_search [] = None"
| "as_search (c # cs) =
     (if is_line_terminator c then None
      else (case as_tail cs of Some w \<Rightarrow> Some w | None \<Rightarrow> as_search cs))"

text \<open>\<^verbatim>\<open>/^[a-zA-Z_]\w*$/.test(s)\<close>\<close>

definition identifier_test :: "string \<Rightarrow> bool" where
  "identifier_test s =
     (case s of [] \<Rightarrow> False | c # r \<Rightarrow> is_letter_or_underscore c \<and> list_all is_word r)"

text \<open>
  \<^verbatim>\<open>/^(\w+)\s*\(/\<close>, returning group 1: the greedy \<^verbatim>\<open>\w+\<close> takes the whole
  run, since a shorter one leaves a word character before the parenthesis.
\<close>

definition match_function_call :: "string \<Rightarrow> string option" where
  "match_function_call s =
     (if takeWhile is_word s \<noteq> []
         \<and> startsWith (dropWhile is_space (dropWhile is_word s)) ''(''
      then Some (takeWhile is_word s) else None)"

text \<open>\<^verbatim>\<open>/[+\-*/]/.test(s)\<close>\<close>

definition operator_test :: "string \<Rightarrow> bool" where
  "operator_test s = list_ex (\<lambda>c. c \<in> set ''+-*/'') s"

text \<open>
  \<open>split_ws\<close> never returns the empty list, so \<^verbatim>\<open>parts[0]\<close> and
  \<^verbatim>\<open>parts[parts.length - 1]\<close> are \<open>hd parts\<close> and \<open>last parts\<close>.
\<close>

definition extractColumnName :: "analyzer \<Rightarrow> string \<Rightarrow> string" where
  "extractColumnName this columnExpr =
     (if startsWith (trim columnExpr) ''('' then
        (case
           (case lastIndexOf columnExpr (CHR '')'') of
              None \<Rightarrow> None
            | Some lastParenIndex \<Rightarrow>
                (let afterParen = trim (drop (lastParenIndex + 1) columnExpr)
                 in if afterParen \<noteq> [] then
                      (case match_optional_as afterParen of
                         Some w \<Rightarrow> Some w
                       | None \<Rightarrow> match_word_only afterParen)
                    else None))
         of Some name \<Rightarrow> name
          | None \<Rightarrow> ''subquery_result'')
      else
        (case as_search columnExpr of
           Some alias \<Rightarrow> alias
         | None \<Rightarrow>
             (let parts = split_ws columnExpr;
                  lastPart = last parts
              in if length parts \<ge> 2
                    \<and> toUpperCase lastPart \<notin> set (sqlKeywords this)
                    \<and> identifier_test lastPart
                 then lastPart
                 else
                   (let baseExpr = hd parts
                    in case match_function_call baseExpr of
                         Some f \<Rightarrow> toLowerCase f
                       | None \<Rightarrow>
                           (case lastIndexOf baseExpr (CHR ''.'') of
                              Some dotIndex \<Rightarrow> drop (dotIndex + 1) baseExpr
                            | None \<Rightarrow>
                                if operator_test baseExpr then ''calculated_field''
                                else baseExpr)))))"

subsection \<open>parseSelectColumns and analyzeQuery\<close>

text \<open>A name is pushed when it is truthy, that is, when it is not the empty string.\<close>

fun push_names :: "analyzer \<Rightarrow> string list \<Rightarrow> string list \<Rightarrow> string list" where
  "push_names this columns [] = columns"
| "push_names this columns (part # columnParts) =
     (let columnName = extractColumnName this (trim part)
      in if columnName \<noteq> [] then push_names this (columns @ [columnName]) columnParts
         else push_names this columns columnParts)"

definition parseSelectColumns :: "analyzer \<Rightarrow> string \<Rightarrow> string list" where
  "parseSelectColumns this selectClause =
     push_names this [] (splitSelectColumns selectClause)"

text \<open>A thrown \<^verbatim>\<open>Error(message)\<close> is \<open>Inl message\<close>.\<close>

definition analyzeQuery :: "analyzer \<Rightarrow> js_value \<Rightarrow> string + string list" where
  "analyzeQuery this query =
     (if \<not> truthy query \<or> typeof query \<noteq> ''string'' then
        Inl ''Query must be a non-empty string''
      else
        (case query of
           JSString text \<Rightarrow>
             (let cleaned = cleanQuery text
              in if \<not> isSelectQuery cleaned then Inl ''Only SELECT queries are supported''
                 else Inr (parseSelectColumns this (extractSelectClause cleaned)))
         | _ \<Rightarrow> Inl ''Query must be a non-empty string''))"

subsection \<open>The methods as transformers of the instance\<close>










section \<open>Notions of the specification\<close>

subsection \<open>Normal form of a query text\<close>

text \<open>
  The words of a text are its maximal runs of non-whitespace characters. The normal form
  the specification describes (no whitespace at either end, every run in between
  collapsed to one space) is the words joined by single spaces.
\<close>

function ws_words :: "string \<Rightarrow> string list" where
  "ws_words s =
     (case dropWhile is_space s of
        [] \<Rightarrow> []
      | c # cs \<Rightarrow> (c # takeWhile (\<lambda>x. \<not> is_space x) cs)
                    # ws_words (dropWhile (\<lambda>x. \<not> is_space x) cs))"
  by pat_completeness auto
termination
proof (relation "measure length")
  fix s :: string and c cs
  assume a: "dropWhile is_space s = c # cs"
  have "length (dropWhile (\<lambda>x. \<not> is_space x) cs) \<le> length cs"
    by (rule length_dropWhile_le)
  moreover have "length (c # cs) \<le> length s"
    unfolding a [symmetric] by (rule length_dropWhile_le)
  ultimately show "(dropWhile (\<lambda>x. \<not> is_space x) cs, s) \<in> measure length"
    by simp
qed simp

declare ws_words.simps [simp del]

fun join_space :: "string list \<Rightarrow> string" where
  "join_space [] = []"
| "join_space [w] = w"
| "join_space (w # v # ws) = w @ CHR '' '' # join_space (v # ws)"

definition normalize_spec :: "string \<Rightarrow> string" where
  "normalize_spec s = join_space (ws_words s)"

definition no_edge_space :: "string \<Rightarrow> bool" where
  "no_edge_space s = (s = [] \<or> (\<not> is_space (hd s) \<and> \<not> is_space (last s)))"

subsection \<open>The SELECT token\<close>

text \<open>
  A text begins with the token \<^verbatim>\<open>SELECT\<close> when it begins with these six letters, in
  any case, and the text ends there or goes on with a character that is no word
  character.
\<close>

definition begins_with_select_token :: "string \<Rightarrow> bool" where
  "begins_with_select_token n =
     (startsWith (toUpperCase n) ''SELECT'' \<and> (length n = 6 \<or> \<not> is_word (n ! 6)))"

subsection \<open>Quoted literals and parenthesis depth\<close>

text \<open>
  A quote character is escaped when a backslash stands before it; an escaped quote
  neither opens nor closes a literal. \<open>open_quote s start i\<close> is the quote character of
  the literal that the characters \<open>start..<i\<close> of \<open>s\<close> leave open, if any: position
  \<open>i\<close> is inside a quoted literal when it is not \<open>None\<close>.
\<close>

definition is_quote :: "char \<Rightarrow> bool" where
  "is_quote c = (c = CHR 0x22 \<or> c = CHR 0x27)"

definition escaped :: "string \<Rightarrow> nat \<Rightarrow> bool" where
  "escaped s i = (i > 0 \<and> s ! (i - 1) = CHR 0x5C)"

fun open_quote :: "string \<Rightarrow> nat \<Rightarrow> nat \<Rightarrow> char option" where
  "open_quote s start 0 = None"
| "open_quote s start (Suc i) =
     (if i < start then None
      else if is_quote (s ! i) \<and> \<not> escaped s i then
        (case open_quote s start i of
           None \<Rightarrow> Some (s ! i)
         | Some qc \<Rightarrow> if s ! i = qc then None else Some qc)
      else open_quote s start i)"

text \<open>
  \<open>depth s start i\<close> is the number of opening minus the number of closing
  parentheses among the characters \<open>start..<i\<close> that stand outside quoted literals.
  Position \<open>i\<close> is top-level when it is outside every literal and its depth is zero.
\<close>

definition paren_value :: "char \<Rightarrow> int" where
  "paren_value c = (if c = CHR ''('' then 1 else if c = CHR '')'' then - 1 else 0)"

fun depth :: "string \<Rightarrow> nat \<Rightarrow> nat \<Rightarrow> int" where
  "depth s start 0 = 0"
| "depth s start (Suc i) =
     (if i < start then 0
      else depth s start i + (if open_quote s start i = None then paren_value (s ! i) else 0))"

definition top_level :: "string \<Rightarrow> nat \<Rightarrow> nat \<Rightarrow> bool" where
  "top_level s start i = (open_quote s start i = None \<and> depth s start i = 0)"

text \<open>
  The clause ends at the first top-level occurrence of \<^verbatim>\<open> FROM \<close> (in any case) at
  or after \<open>start\<close>, or at the end of the text if there is none.
\<close>

definition keyword_at :: "string \<Rightarrow> nat \<Rightarrow> bool" where
  "keyword_at s i = (toUpperCase (take 6 (drop i s)) = '' FROM '')"

definition clause_end_spec :: "string \<Rightarrow> nat \<Rightarrow> nat" where
  "clause_end_spec s start =
     (case filter (\<lambda>i. keyword_at s i \<and> top_level s start i) [start..<length s] of
        [] \<Rightarrow> length s
      | i # _ \<Rightarrow> i)"

text \<open>
  The raw segments of a clause are the pieces between its top-level commas: every
  character is marked as a separator or not, and the text is cut at the marks. The
  specified result of the splitter is the trimmed segments, the last one left out when
  it is blank.
\<close>

definition separator_at :: "string \<Rightarrow> nat \<Rightarrow> bool" where
  "separator_at s i = (s ! i = CHR '','' \<and> top_level s 0 i)"

fun split_marked :: "(char \<times> bool) list \<Rightarrow> string list" where
  "split_marked [] = [[]]"
| "split_marked ((c, mark) # r) =
     (let rest = split_marked r
      in if mark then [] # rest else (c # hd rest) # tl rest)"

definition marked :: "string \<Rightarrow> (char \<times> bool) list" where
  "marked s = zip s (map (separator_at s) [0..<length s])"

definition raw_segments :: "string \<Rightarrow> string list" where
  "raw_segments s = split_marked (marked s)"

definition split_spec :: "string \<Rightarrow> string list" where
  "split_spec s =
     map trim (butlast (raw_segments s))
       @ (if trim (last (raw_segments s)) = [] then [] else [trim (last (raw_segments s))])"

text \<open>
  The two variables \<^verbatim>\<open>inQuotes\<close> and \<^verbatim>\<open>quoteChar\<close> of the code, as a function of
  the open quote of the specification.
\<close>

definition abs_quote :: "char option \<Rightarrow> quote_state" where
  "abs_quote oq = (oq \<noteq> None, oq)"

text \<open>
  The segments of a clause are its raw segments, trimmed; a segment may be empty.
\<close>

definition segments :: "string \<Rightarrow> string list" where
  "segments c = map trim (raw_segments c)"

subsection \<open>Alias patterns\<close>

text \<open>
  The identifier of the specification is a non-empty run of letters, digits and
  underscores that does not start with a digit.
\<close>

definition spec_identifier :: "string \<Rightarrow> bool" where
  "spec_identifier s = (word_plus s \<and> \<not> is_digit (hd s))"

text \<open>
  The alias patterns of the code take any word, that is, any non-empty run of letters,
  digits and underscores (\<open>word_plus\<close>), a leading digit included. A text is
  \<^verbatim>\<open>AS\<close> followed by a word when it consists of the two letters in any case, at
  least one whitespace character, and the word. The text after a subquery names an
  alias when it is such a text or the bare word. An expression carries an explicit
  alias when it is some non-empty text, whitespace, and \<^verbatim>\<open>AS\<close> followed by the
  word.
\<close>

definition as_then_identifier :: "string \<Rightarrow> string \<Rightarrow> bool" where
  "as_then_identifier t ident =
     (\<exists>x y w. t = x # y # w @ ident \<and> upper_char x = CHR ''A'' \<and> upper_char y = CHR ''S''
        \<and> w \<noteq> [] \<and> list_all is_space w \<and> word_plus ident)"

definition alias_text :: "string \<Rightarrow> string \<Rightarrow> bool" where
  "alias_text t ident = ((t = ident \<and> word_plus ident) \<or> as_then_identifier t ident)"

definition explicit_alias :: "string \<Rightarrow> string \<Rightarrow> bool" where
  "explicit_alias e ident =
     (\<exists>a w r. e = a @ w @ r \<and> a \<noteq> [] \<and> w \<noteq> [] \<and> list_all is_space w
        \<and> as_then_identifier r ident)"

section \<open>Properties\<close>

subsection \<open>trim and cleanQuery\<close>

lemma last_dropWhile_eq: "dropWhile P xs \<noteq> [] \<Longrightarrow> last (dropWhile P xs) = last xs"
  by (induction xs) (auto split: if_splits)

lemma trim_Nil_iff: "trim s = [] \<longleftrightarrow> list_all is_space s"
proof -
  let ?d = "dropWhile is_space s"
  have "dropWhile is_space (rev ?d) = [] \<longleftrightarrow> ?d = []"
  proof
    assume a: "dropWhile is_space (rev ?d) = []"
    show "?d = []"
    proof (rule ccontr)
      assume n: "?d \<noteq> []"
      then have "\<not> is_space (hd ?d)" by (rule hd_dropWhile)
      moreover have "hd ?d \<in> set (rev ?d)"
        using n by simp
      ultimately show False using a unfolding dropWhile_eq_Nil_conv by blast
    qed
  next
    assume "?d = []"
    then show "dropWhile is_space (rev ?d) = []" by (auto dest: set_dropWhileD)
  qed
  then have "trim s = [] \<longleftrightarrow> ?d = []"
    unfolding trim_def rev_is_Nil_conv .
  then show ?thesis
    by (simp add: dropWhile_eq_Nil_conv list_all_iff)
qed

lemma no_edge_space_trim: "no_edge_space (trim s)"
proof (cases "trim s = []")
  case True
  then show ?thesis by (simp add: no_edge_space_def)
next
  case False
  let ?d = "dropWhile is_space s"
  let ?e = "dropWhile is_space (rev ?d)"
  from False have e: "?e \<noteq> []" by (simp add: trim_def)
  then have d: "?d \<noteq> []" by (auto dest: set_dropWhileD)
  have "last (trim s) = hd ?e"
    using e by (simp add: trim_def last_rev)
  moreover have "\<not> is_space (hd ?e)" using e by (rule hd_dropWhile)
  moreover have "hd (trim s) = last ?e"
    using e by (simp add: trim_def hd_rev)
  moreover have "last ?e = last (rev ?d)" using e by (rule last_dropWhile_eq)
  moreover have "last (rev ?d) = hd ?d" using d by (simp add: last_rev)
  moreover have "\<not> is_space (hd ?d)" using d by (rule hd_dropWhile)
  ultimately show ?thesis by (simp add: no_edge_space_def)
qed

lemma trim_id: "no_edge_space s \<Longrightarrow> trim s = s"
proof (cases s)
  case Nil
  then show ?thesis by (simp add: trim_def)
next
  case (Cons c cs)
  assume "no_edge_space s"
  then have h: "\<not> is_space (hd s)" and l: "\<not> is_space (last s)"
    using Cons by (auto simp: no_edge_space_def)
  have 1: "dropWhile is_space s = s" using h Cons by simp
  have "rev s \<noteq> []" using Cons by simp
  moreover have "hd (rev s) = last s" using Cons by (simp add: hd_rev)
  ultimately have "dropWhile is_space (rev s) = rev s"
    using l by (metis dropWhile.simps(2) list.collapse)
  then show ?thesis by (simp add: trim_def 1)
qed

lemma trim_trim: "trim (trim s) = trim s"
  by (rule trim_id) (rule no_edge_space_trim)


lemma ws_words_Nil [simp]: "ws_words [] = []"
  by (simp add: ws_words.simps)

lemma ws_words_space: "is_space c \<Longrightarrow> ws_words (c # cs) = ws_words cs"
  by (simp add: ws_words.simps [of "c # cs"] ws_words.simps [of cs])

lemma ws_words_nonspace:
  "\<not> is_space c \<Longrightarrow> ws_words (c # cs) =
     (c # takeWhile (\<lambda>x. \<not> is_space x) cs) # ws_words (dropWhile (\<lambda>x. \<not> is_space x) cs)"
  by (simp add: ws_words.simps [of "c # cs"])

lemma ws_words_nonspace_space:
  "\<not> is_space c \<Longrightarrow> is_space x \<Longrightarrow> ws_words (c # x # xs) = [c] # ws_words (x # xs)"
  by (simp add: ws_words_nonspace)

lemma ws_words_nonspace_nonspace:
  "\<not> is_space c \<Longrightarrow> \<not> is_space x \<Longrightarrow>
   ws_words (c # x # xs) = (c # hd (ws_words (x # xs))) # tl (ws_words (x # xs))"
  by (simp add: ws_words_nonspace)

lemma ws_words_all_space: "list_all is_space w \<Longrightarrow> ws_words w = []"
  by (induction w) (simp_all add: ws_words_space)

lemma ws_words_append_spaces: "list_all is_space w \<Longrightarrow> ws_words (xs @ w) = ws_words xs"
proof (induction xs)
  case Nil
  then show ?case by (simp add: ws_words_all_space)
next
  case (Cons c cs)
  show ?case
  proof (cases "is_space c")
    case True
    then show ?thesis using Cons by (simp add: ws_words_space)
  next
    case False
    note c = this
    show ?thesis
    proof (cases cs)
      case Nil
      then show ?thesis
      proof (cases w)
        case Nil
        then show ?thesis by simp
      next
        case (Cons x xs)
        then have "is_space x" using \<open>list_all is_space w\<close> by simp
        then show ?thesis
          using c Cons \<open>cs = []\<close> \<open>list_all is_space w\<close>
          by (simp add: ws_words_nonspace_space ws_words_all_space ws_words_nonspace)
      qed
    next
      case (Cons x xs)
      then show ?thesis
        using c Cons.IH [OF Cons.prems]
        by (cases "is_space x") (simp_all add: ws_words_nonspace_space ws_words_nonspace_nonspace)
    qed
  qed
qed

lemma ws_words_prepend_spaces: "list_all is_space w \<Longrightarrow> ws_words (w @ xs) = ws_words xs"
  by (induction w) (simp_all add: ws_words_space)

lemma trim_decomp:
  "\<exists>l t. s = l @ trim s @ t \<and> list_all is_space l \<and> list_all is_space t"
proof -
  let ?d = "dropWhile is_space s"
  have "rev (rev ?d) = rev (takeWhile is_space (rev ?d) @ dropWhile is_space (rev ?d))"
    by (simp only: takeWhile_dropWhile_id)
  then have d: "?d = trim s @ rev (takeWhile is_space (rev ?d))"
    by (simp only: rev_rev_ident rev_append trim_def)
  have "s = takeWhile is_space s @ ?d" by simp
  then have "s = takeWhile is_space s @ trim s @ rev (takeWhile is_space (rev ?d))"
    using d by simp
  moreover have "list_all is_space (takeWhile is_space s)"
    by (simp add: list_all_iff) (meson set_takeWhileD)
  moreover have "list_all is_space (rev (takeWhile is_space (rev ?d)))"
    by (simp add: list_all_iff) (meson set_takeWhileD)
  ultimately show ?thesis by blast
qed

lemma ws_words_trim: "ws_words (trim s) = ws_words s"
proof -
  obtain l t where s: "s = l @ trim s @ t" and l: "list_all is_space l" and t: "list_all is_space t"
    using trim_decomp by blast
  have "ws_words s = ws_words (l @ trim s @ t)" using s by simp
  also have "\<dots> = ws_words (trim s @ t)" using l by (rule ws_words_prepend_spaces)
  also have "\<dots> = ws_words (trim s)" using t by (rule ws_words_append_spaces)
  finally show ?thesis by simp
qed

lemma join_space_Cons_Cons: "join_space ((c # w) # ws) = c # join_space (w # ws)"
  by (cases ws) simp_all

lemma join_space_Cons: "ws \<noteq> [] \<Longrightarrow> join_space (w # ws) = w @ CHR '' '' # join_space ws"
  by (cases ws) simp_all

lemma ws_words_Nil_iff: "ws_words s = [] \<longleftrightarrow> list_all is_space s"
proof
  assume "ws_words s = []"
  then have "dropWhile is_space s = []"
    by (simp add: ws_words.simps [of s] split: list.splits)
  then show "list_all is_space s"
    by (simp add: list_all_iff)
qed (rule ws_words_all_space)

lemma replace_ws_runs_spec:
  "s = [] \<or> \<not> is_space (last s) \<Longrightarrow>
   replace_ws_runs s =
     (if s \<noteq> [] \<and> is_space (hd s) then CHR '' '' # join_space (ws_words s)
      else join_space (ws_words s))"
proof (induction s rule: replace_ws_runs.induct)
  case 1
  then show ?case by simp
next
  case (2 c cs)
  show ?case
  proof (cases "is_space c")
    case True
    let ?d = "dropWhile is_space cs"
    have l: "\<not> is_space (last (c # cs))" using 2 by simp
    have d: "?d \<noteq> []"
    proof
      assume "?d = []"
      then have "list_all is_space (c # cs)" using True by (simp add: list_all_iff)
      then have "is_space (last (c # cs))"
        unfolding list_all_iff using last_in_set [of "c # cs"] by blast
      with l show False by simp
    qed
    then have hd: "\<not> is_space (hd ?d)" by (rule hd_dropWhile)
    have "last ?d = last cs" using d by (rule last_dropWhile_eq)
    moreover have "cs \<noteq> []" using d by auto
    ultimately have "\<not> is_space (last ?d)" using l by simp
    then have "replace_ws_runs ?d = join_space (ws_words ?d)"
      using "2.IH"(1) [OF True] hd by simp
    moreover have "ws_words ?d = ws_words cs"
      by (simp add: ws_words.simps [of ?d] ws_words.simps [of cs])
    ultimately show ?thesis using True by (simp add: ws_words_space)
  next
    case False
    have p: "cs = [] \<or> \<not> is_space (last cs)" using 2 by (auto split: if_splits)
    note IH = "2.IH"(2) [OF False p]
    show ?thesis
    proof (cases cs)
      case Nil
      then show ?thesis using False by (simp add: ws_words_nonspace)
    next
      case (Cons x xs)
      show ?thesis
      proof (cases "is_space x")
        case True
        have "\<not> list_all is_space cs"
          using p Cons unfolding list_all_iff using last_in_set [of cs] by blast
        then have "ws_words cs \<noteq> []" by (simp add: ws_words_Nil_iff)
        then show ?thesis
          using False True Cons IH
          by (simp add: ws_words_nonspace_space join_space_Cons)
      next
        case x: False
        have "ws_words (x # xs) \<noteq> []" using x by (simp add: ws_words_nonspace)
        then have "join_space ((c # hd (ws_words (x # xs))) # tl (ws_words (x # xs)))
                   = c # join_space (ws_words (x # xs))"
          by (simp add: join_space_Cons_Cons)
        then show ?thesis
          using False x Cons IH by (simp add: ws_words_nonspace_nonspace)
      qed
    qed
  qed
qed

lemma replace_ws_runs_space: "c \<in> set (replace_ws_runs s) \<Longrightarrow> is_space c \<Longrightarrow> c = CHR '' ''"
  by (induction s rule: replace_ws_runs.induct) (auto split: if_splits)

lemma replace_char_id: "x \<notin> set s \<Longrightarrow> replace_char x y s = s"
  by (induction s) (auto simp: replace_char_def)

lemma cleanQuery_eq: "cleanQuery s = replace_ws_runs (trim s)"
proof -
  have "CHR 0x0A \<notin> set (replace_ws_runs (trim s))"
    using replace_ws_runs_space [of "CHR 0x0A" "trim s"] by (auto simp: is_space_def)
  moreover have "CHR 0x09 \<notin> set (replace_ws_runs (trim s))"
    using replace_ws_runs_space [of "CHR 0x09" "trim s"] by (auto simp: is_space_def)
  ultimately show ?thesis by (simp add: cleanQuery_def replace_char_id)
qed

lemma cleanQuery_normalize_spec: "cleanQuery s = normalize_spec s"
proof -
  have e: "no_edge_space (trim s)" by (rule no_edge_space_trim)
  then have "replace_ws_runs (trim s) = join_space (ws_words (trim s))"
    using replace_ws_runs_spec [of "trim s"] by (auto simp: no_edge_space_def)
  then show ?thesis
    by (simp add: cleanQuery_eq normalize_spec_def ws_words_trim)
qed

lemma ws_words_elems:
  "w \<in> set (ws_words s) \<Longrightarrow> w \<noteq> [] \<and> list_all (\<lambda>c. \<not> is_space c) w"
proof (induction s arbitrary: w rule: ws_words.induct)
  case (1 s)
  show ?case
  proof (cases "dropWhile is_space s")
    case Nil
    have "ws_words s = []"
      by (subst ws_words.simps) (simp only: Nil list.case)
    then show ?thesis using 1(2) by simp
  next
    case (Cons c cs)
    have "\<not> is_space (hd (dropWhile is_space s))"
      by (rule hd_dropWhile) (simp only: Cons list.distinct not_False_eq_True)
    then have c: "\<not> is_space c" by (simp add: Cons)
    have "ws_words s = (c # takeWhile (\<lambda>x. \<not> is_space x) cs)
             # ws_words (dropWhile (\<lambda>x. \<not> is_space x) cs)"
      by (subst ws_words.simps) (simp only: Cons list.case)
    then have "w = c # takeWhile (\<lambda>x. \<not> is_space x) cs
          \<or> w \<in> set (ws_words (dropWhile (\<lambda>x. \<not> is_space x) cs))"
      using 1(2) by simp
    then show ?thesis
    proof
      assume "w = c # takeWhile (\<lambda>x. \<not> is_space x) cs"
      then show ?thesis using c by (auto simp: list_all_iff dest: set_takeWhileD)
    next
      assume "w \<in> set (ws_words (dropWhile (\<lambda>x. \<not> is_space x) cs))"
      then show ?thesis using 1(1) [OF Cons] by blast
    qed
  qed
qed

lemma ws_words_single:
  "w \<noteq> [] \<Longrightarrow> list_all (\<lambda>c. \<not> is_space c) w \<Longrightarrow> ws_words (w @ CHR '' '' # r) = w # ws_words r"
proof -
  assume w: "w \<noteq> []" and a: "list_all (\<lambda>c. \<not> is_space c) w"
  obtain c cs where cs: "w = c # cs" using w by (cases w) auto
  have sp: "is_space (CHR '' '')" by (simp add: is_space_def)
  have "takeWhile (\<lambda>x. \<not> is_space x) (cs @ CHR '' '' # r) = cs"
    using a cs sp by (simp add: list_all_iff)
  moreover have "dropWhile (\<lambda>x. \<not> is_space x) (cs @ CHR '' '' # r) = CHR '' '' # r"
    using a cs sp by (simp add: list_all_iff)
  ultimately show ?thesis
    using a cs sp by (simp add: ws_words_nonspace ws_words_space)
qed

lemma ws_words_word:
  "w \<noteq> [] \<Longrightarrow> list_all (\<lambda>c. \<not> is_space c) w \<Longrightarrow> ws_words w = [w]"
proof -
  assume w: "w \<noteq> []" and a: "list_all (\<lambda>c. \<not> is_space c) w"
  obtain c cs where cs: "w = c # cs" using w by (cases w) auto
  have c: "\<not> is_space c" using a cs by simp
  have t: "takeWhile (\<lambda>x. \<not> is_space x) cs = cs"
    using a cs by (simp add: list_all_iff)
  have d: "dropWhile (\<lambda>x. \<not> is_space x) cs = []"
    using a cs by (simp add: list_all_iff)
  show ?thesis
    unfolding cs ws_words_nonspace [OF c] t d by simp
qed

lemma ws_words_join_space:
  "list_all (\<lambda>w. w \<noteq> [] \<and> list_all (\<lambda>c. \<not> is_space c) w) W \<Longrightarrow> ws_words (join_space W) = W"
  by (induction W rule: join_space.induct) (simp_all add: ws_words_word ws_words_single)

lemma ws_words_normalize_spec: "ws_words (normalize_spec s) = ws_words s"
  unfolding normalize_spec_def
proof (rule ws_words_join_space)
  show "list_all (\<lambda>w. w \<noteq> [] \<and> list_all (\<lambda>c. \<not> is_space c) w) (ws_words s)"
    unfolding list_all_iff [of _ "ws_words s"] using ws_words_elems by blast
qed

lemma replace_ws_runs_Nil_iff: "replace_ws_runs s = [] \<longleftrightarrow> s = []"
  by (cases s) simp_all

lemma hd_replace_ws_runs: "s \<noteq> [] \<Longrightarrow> \<not> is_space (hd s) \<Longrightarrow> hd (replace_ws_runs s) = hd s"
  by (cases s) simp_all

lemma last_replace_ws_runs:
  "s \<noteq> [] \<Longrightarrow> \<not> is_space (last s) \<Longrightarrow> last (replace_ws_runs s) = last s"
proof (induction s rule: replace_ws_runs.induct)
  case 1
  then show ?case by simp
next
  case (2 c cs)
  show ?case
  proof (cases "is_space c")
    case True
    let ?d = "dropWhile is_space cs"
    have "?d \<noteq> []"
    proof
      assume "?d = []"
      then have "list_all is_space (c # cs)" using True by (simp add: list_all_iff)
      then have "is_space (last (c # cs))"
        unfolding list_all_iff using last_in_set [of "c # cs"] by blast
      with 2(4) show False by simp
    qed
    note d = this
    then have "last ?d = last cs" by (rule last_dropWhile_eq)
    moreover from d have "cs \<noteq> []" by auto
    ultimately have l: "\<not> is_space (last ?d)" using 2(4) by simp
    have r: "replace_ws_runs ?d \<noteq> []"
      using d by (simp only: replace_ws_runs_Nil_iff not_False_eq_True)
    have "last (replace_ws_runs (c # cs)) = last (replace_ws_runs ?d)"
      using True r by simp
    also have "\<dots> = last ?d" using "2.IH"(1) [OF True d l] .
    also have "\<dots> = last (c # cs)"
      using \<open>last ?d = last cs\<close> \<open>cs \<noteq> []\<close> by simp
    finally show ?thesis .
  next
    case False
    then show ?thesis using 2 by (cases cs) (simp_all add: replace_ws_runs_Nil_iff)
  qed
qed

lemma no_edge_space_cleanQuery: "no_edge_space (cleanQuery s)"
proof -
  have "no_edge_space (trim s)" by (rule no_edge_space_trim)
  then show ?thesis
    unfolding cleanQuery_eq no_edge_space_def
    by (auto simp: replace_ws_runs_Nil_iff hd_replace_ws_runs last_replace_ws_runs)
qed

lemma cleanQuery_spaces: "list_all (\<lambda>c. is_space c \<longrightarrow> c = CHR '' '') (cleanQuery s)"
  unfolding cleanQuery_eq list_all_iff using replace_ws_runs_space by blast

text \<open>
  C8. \<^verbatim>\<open>cleanQuery\<close> is a total function from strings to strings, and its result is
  the normal form of the text: the words of the text joined by single spaces. So it has
  no whitespace at either end, its only whitespace characters are single spaces, and it
  has the words of the input.
\<close>

theorem C8_cleanQuery_normalizes:
  "cleanQuery s = normalize_spec s
   \<and> no_edge_space (cleanQuery s)
   \<and> list_all (\<lambda>c. is_space c \<longrightarrow> c = CHR '' '') (cleanQuery s)
   \<and> ws_words (cleanQuery s) = ws_words s"
  using cleanQuery_normalize_spec [of s] no_edge_space_cleanQuery [of s]
    cleanQuery_spaces [of s] ws_words_normalize_spec [of s]
  by simp

theorem C8_cleanQuery_normalizes_witness:
  "cleanQuery [CHR 0xA0, CHR 0x09, CHR ''a'', CHR 0x0A, CHR 0x0D, CHR 0xA0, CHR ''b'', CHR 0x0B]
     = ''a b''"
proof -
  have "normalize_spec
          [CHR 0xA0, CHR 0x09, CHR ''a'', CHR 0x0A, CHR 0x0D, CHR 0xA0, CHR ''b'', CHR 0x0B]
        = ''a b''"
    by code_simp
  then show ?thesis
    using C8_cleanQuery_normalizes
      [of "[CHR 0xA0, CHR 0x09, CHR ''a'', CHR 0x0A, CHR 0x0D, CHR 0xA0, CHR ''b'', CHR 0x0B]"]
    by simp
qed

subsection \<open>The top-level method\<close>

lemma push_names_eq:
  "push_names this columns columnParts =
     columns @ filter (\<lambda>n. n \<noteq> []) (map (\<lambda>p. extractColumnName this (trim p)) columnParts)"
  by (induction columnParts arbitrary: columns) (simp_all add: Let_def)

lemma analyzeQuery_string:
  "analyzeQuery this (JSString s) =
     (if s = [] then Inl ''Query must be a non-empty string''
      else if \<not> isSelectQuery (cleanQuery s) then Inl ''Only SELECT queries are supported''
      else Inr (parseSelectColumns this (extractSelectClause (cleanQuery s))))"
  by (simp add: analyzeQuery_def Let_def)

lemma analyzeQuery_non_string:
  "typeof q \<noteq> ''string'' \<Longrightarrow> analyzeQuery this q = Inl ''Query must be a non-empty string''"
  by (simp add: analyzeQuery_def)

lemma typeof_string_iff: "typeof q = ''string'' \<longleftrightarrow> (\<exists>s. q = JSString s)"
  by (cases q) simp_all

text \<open>
  C1. The two literal scenarios of a computed expression. With the alias, the result is
  \<open>[''total'']\<close>. Without it, the expression \<^verbatim>\<open>price * quantity\<close> splits into the
  three tokens \<^verbatim>\<open>price\<close>, \<^verbatim>\<open>*\<close>, \<^verbatim>\<open>quantity\<close>; the last one is an identifier
  and no keyword, so the implicit-alias branch returns it and the operator branch
  (whose comment names this very expression) is never reached: the result is
  \<open>[''quantity'']\<close>, not \<open>[''calculated_field'']\<close>.
\<close>

theorem C1_computed_expression_scenarios:
  "analyzeQuery SQLQueryAnalyzer (JSString ''SELECT price * quantity FROM order_items'')
     = Inr [''quantity'']
   \<and> analyzeQuery SQLQueryAnalyzer (JSString ''SELECT price * quantity AS total FROM order_items'')
     = Inr [''total'']"
  by code_simp

theorem C1_computed_expression_witness:
  "analyzeQuery SQLQueryAnalyzer (JSString ''SELECT price * quantity FROM order_items'')
     = Inr [''quantity'']"
  using C1_computed_expression_scenarios by (rule conjunct1)

text \<open>
  C10. Every name that \<^verbatim>\<open>analyzeQuery\<close> returns is a non-empty string: the result is
  the list of the names derived from the column parts, in order, with the empty names
  left out.
\<close>

theorem C10_names_nonempty:
  assumes "analyzeQuery this q = Inr names"
  shows "list_all (\<lambda>n. n \<noteq> []) names
     \<and> (\<exists>s. q = JSString s \<and> names = filter (\<lambda>n. n \<noteq> [])
           (map (\<lambda>p. extractColumnName this (trim p))
              (splitSelectColumns (extractSelectClause (cleanQuery s)))))"
proof -
  have "typeof q = ''string''"
    using assms analyzeQuery_non_string [of q this] by auto
  then obtain s where q: "q = JSString s"
    by (auto simp: typeof_string_iff)
  have names: "names = parseSelectColumns this (extractSelectClause (cleanQuery s))"
    using assms unfolding q analyzeQuery_string by (simp split: if_splits)
  show ?thesis
    unfolding q names parseSelectColumns_def push_names_eq
    by (simp add: list_all_iff)
qed

text \<open>
  An instance: the first column, \<^verbatim>\<open>t.\<close>, has the empty derived name and is left out.
\<close>

theorem C10_names_nonempty_witness:
  "analyzeQuery SQLQueryAnalyzer (JSString ''SELECT t., b FROM x'') = Inr [''b'']
   \<and> extractColumnName SQLQueryAnalyzer ''t.'' = []
   \<and> list_all (\<lambda>n. n \<noteq> []) [''b'']"
proof -
  have h: "analyzeQuery SQLQueryAnalyzer (JSString ''SELECT t., b FROM x'') = Inr [''b'']"
    by code_simp
  have e: "extractColumnName SQLQueryAnalyzer ''t.'' = []"
    by code_simp
  have "list_all (\<lambda>n. n \<noteq> []) [''b'']"
    using C10_names_nonempty [OF h] by (rule conjunct1)
  with h e show ?thesis by blast
qed

subsection \<open>The two errors\<close>

lemma is_space_upper_char: "is_space (upper_char c) = is_space c"
  by (auto simp: upper_char_def lower_letters_def upper_letters_def is_space_def)

lemma upper_units_cases:
  "(c = CHR 0xDF \<and> upper_units c = ''SS'')
   \<or> upper_units c = [c]
   \<or> (\<exists>u. upper_units c = [u] \<and> c \<in> set (lower_letters @ latin1_lower)
          \<and> u \<in> set (upper_letters @ latin1_upper))"
proof (cases "c = CHR 0xDF")
  case True
  then show ?thesis by (simp add: upper_units_def)
next
  case False
  show ?thesis
  proof (cases "map_of (zip (lower_letters @ latin1_lower) (upper_letters @ latin1_upper)) c")
    case None
    then show ?thesis using False by (simp add: upper_units_def)
  next
    case (Some u)
    then have "(c, u) \<in> set (zip (lower_letters @ latin1_lower) (upper_letters @ latin1_upper))"
      by (rule map_of_SomeD)
    then have "c \<in> set (lower_letters @ latin1_lower)" and "u \<in> set (upper_letters @ latin1_upper)"
      by (auto dest: set_zip_leftD set_zip_rightD)
    moreover have "upper_units c = [u]" using False Some by (simp add: upper_units_def)
    ultimately show ?thesis by blast
  qed
qed

lemma upper_units_nonempty: "upper_units c \<noteq> []"
  using upper_units_cases [of c] by auto

lemma cased_letter_not_space:
  "c \<in> set (lower_letters @ latin1_lower) \<Longrightarrow> \<not> is_space c"
  "u \<in> set (upper_letters @ latin1_upper) \<Longrightarrow> \<not> is_space u"
  by (auto simp: lower_letters_def latin1_lower_def upper_letters_def latin1_upper_def is_space_def)

lemma upper_units_space:
  "is_space (hd (upper_units c)) = is_space c"
  "is_space (last (upper_units c)) = is_space c"
proof -
  have s: "\<not> is_space (CHR 0xDF)" "\<not> is_space (CHR ''S'')" by (simp_all add: is_space_def)
  show "is_space (hd (upper_units c)) = is_space c"
    using upper_units_cases [of c] s cased_letter_not_space by auto
  show "is_space (last (upper_units c)) = is_space c"
    using upper_units_cases [of c] s cased_letter_not_space by auto
qed

lemma toUpperCase_Cons: "toUpperCase (c # cs) = upper_units c @ toUpperCase cs"
  by (simp add: toUpperCase_def)

lemma toUpperCase_snoc: "toUpperCase (cs @ [c]) = toUpperCase cs @ upper_units c"
  by (simp add: toUpperCase_def)

lemma toUpperCase_Nil [simp]: "toUpperCase [] = []"
  by (simp add: toUpperCase_def)

lemma no_edge_space_toUpperCase: "no_edge_space (toUpperCase s) = no_edge_space s"
proof (cases s)
  case Nil
  then show ?thesis by simp
next
  case (Cons c cs)
  then have h: "hd (toUpperCase s) = hd (upper_units c)"
    by (simp add: toUpperCase_Cons upper_units_nonempty)
  have "butlast s @ [last s] = s" using Cons by simp
  then obtain ys y where s: "s = ys @ [y]" by metis
  then have l: "last (toUpperCase s) = last (upper_units y)"
    by (simp add: toUpperCase_snoc upper_units_nonempty)
  have n: "toUpperCase s \<noteq> []"
    using Cons by (simp add: toUpperCase_Cons upper_units_nonempty)
  have "hd s = c" and "s \<noteq> []" using Cons by simp_all
  moreover have "last s = y" unfolding s by simp
  ultimately show ?thesis
    unfolding no_edge_space_def h l using n by (simp add: upper_units_space)
qed

lemma isSelectQuery_cleanQuery:
  "isSelectQuery (cleanQuery s) = startsWith (toUpperCase (normalize_spec s)) ''SELECT''"
proof -
  have "no_edge_space (toUpperCase (cleanQuery s))"
    by (simp add: no_edge_space_toUpperCase no_edge_space_cleanQuery)
  then have "trim (toUpperCase (cleanQuery s)) = toUpperCase (cleanQuery s)"
    by (rule trim_id)
  then show ?thesis
    by (simp add: isSelectQuery_def cleanQuery_normalize_spec)
qed

text \<open>
  C4, as amended. \<^verbatim>\<open>analyzeQuery\<close> raises ``Only SELECT queries are supported''
  exactly on the non-empty strings whose normal form does not begin with the six
  letters \<^verbatim>\<open>SELECT\<close> in any case. No token boundary is asked for after them.
\<close>

theorem C4_unsupported_statement:
  "(analyzeQuery this q = Inl ''Only SELECT queries are supported'')
     = (\<exists>s. q = JSString s \<and> s \<noteq> [] \<and> \<not> startsWith (toUpperCase (normalize_spec s)) ''SELECT'')"
proof (cases "typeof q = ''string''")
  case True
  then obtain s where q: "q = JSString s" by (auto simp: typeof_string_iff)
  show ?thesis
    unfolding q analyzeQuery_string isSelectQuery_cleanQuery by simp
next
  case False
  then have "analyzeQuery this q = Inl ''Query must be a non-empty string''"
    by (rule analyzeQuery_non_string)
  moreover have "\<nexists>s. q = JSString s" using False by (auto simp: typeof_string_iff)
  ultimately show ?thesis by simp
qed

theorem C4_unsupported_statement_witness:
  "analyzeQuery SQLQueryAnalyzer (JSString ''INSERT INTO users (name) VALUES (1)'')
     = Inl ''Only SELECT queries are supported''"
proof -
  have "\<not> startsWith (toUpperCase (normalize_spec ''INSERT INTO users (name) VALUES (1)'')) ''SELECT''"
    by code_simp
  then show ?thesis
    using C4_unsupported_statement
      [of SQLQueryAnalyzer "JSString ''INSERT INTO users (name) VALUES (1)''"]
    by simp
qed

text \<open>
  The claim as stated fails: \<^verbatim>\<open>SELECTION\<close> does not begin with the token, and is
  analysed without an error; the empty string does not begin with it either, and gets
  the other error.
\<close>

theorem C4_counterexample:
  "\<not> begins_with_select_token (normalize_spec ''SELECTION'')
   \<and> analyzeQuery SQLQueryAnalyzer (JSString ''SELECTION'') = Inr [''ION'']
   \<and> \<not> begins_with_select_token (normalize_spec '''')
   \<and> analyzeQuery SQLQueryAnalyzer (JSString '''') = Inl ''Query must be a non-empty string''"
  by code_simp


text \<open>
  C2, as amended. \<^verbatim>\<open>analyzeQuery\<close> raises ``Query must be a non-empty string''
  exactly on the values that are no string and on the empty string. A string that is
  not empty and holds whitespace only passes this test; its normal form is empty, and
  the error is ``Only SELECT queries are supported''.
\<close>

theorem C2_invalid_input:
  "(analyzeQuery this q = Inl ''Query must be a non-empty string'')
     = (typeof q \<noteq> ''string'' \<or> q = JSString [])
   \<and> (\<forall>s. s \<noteq> [] \<and> list_all is_space s \<longrightarrow>
         analyzeQuery this (JSString s) = Inl ''Only SELECT queries are supported'')"
proof
  show "(analyzeQuery this q = Inl ''Query must be a non-empty string'')
     = (typeof q \<noteq> ''string'' \<or> q = JSString [])"
  proof (cases "typeof q = ''string''")
    case True
    then obtain s where q: "q = JSString s" by (auto simp: typeof_string_iff)
    show ?thesis unfolding q analyzeQuery_string by simp
  next
    case False
    then show ?thesis by (simp add: analyzeQuery_non_string)
  qed
next
  show "\<forall>s. s \<noteq> [] \<and> list_all is_space s \<longrightarrow>
         analyzeQuery this (JSString s) = Inl ''Only SELECT queries are supported''"
  proof (intro allI impI)
    fix s :: string
    assume a: "s \<noteq> [] \<and> list_all is_space s"
    then have "trim s = []" by (simp add: trim_Nil_iff)
    then have "cleanQuery s = []" by (simp add: cleanQuery_eq)
    then have "\<not> isSelectQuery (cleanQuery s)"
      by (simp add: isSelectQuery_def trim_def startsWith_def)
    then show "analyzeQuery this (JSString s) = Inl ''Only SELECT queries are supported''"
      using a by (simp add: analyzeQuery_string)
  qed
qed

theorem C2_invalid_input_witness:
  "analyzeQuery SQLQueryAnalyzer JSUndefined = Inl ''Query must be a non-empty string''
   \<and> analyzeQuery SQLQueryAnalyzer (JSNumber 42) = Inl ''Query must be a non-empty string''
   \<and> analyzeQuery SQLQueryAnalyzer (JSString []) = Inl ''Query must be a non-empty string''
   \<and> analyzeQuery SQLQueryAnalyzer (JSString [CHR '' '', CHR 0x09]) = Inl ''Only SELECT queries are supported''"
proof -
  have sp: "[CHR '' '', CHR 0x09] \<noteq> [] \<and> list_all is_space [CHR '' '', CHR 0x09]"
    by (simp add: is_space_def)
  show ?thesis
    using C2_invalid_input [of SQLQueryAnalyzer JSUndefined]
      C2_invalid_input [of SQLQueryAnalyzer "JSNumber 42"]
      C2_invalid_input [of SQLQueryAnalyzer "JSString []"]
      C2_invalid_input [of SQLQueryAnalyzer q, THEN conjunct2, THEN spec, THEN mp, OF sp]
    by simp
qed

text \<open>The claim as stated fails on a string of a space, a tab and a line feed.\<close>

theorem C2_counterexample:
  "list_all is_space [CHR '' '', CHR 0x09, CHR 0x0A]
   \<and> analyzeQuery SQLQueryAnalyzer (JSString [CHR '' '', CHR 0x09, CHR 0x0A])
       = Inl ''Only SELECT queries are supported''"
  by code_simp

subsection \<open>The two scanners\<close>

lemma handle_quotes_step:
  "start \<le> i \<Longrightarrow>
   handle_quotes (s ! i) (prevChar_at s i) (abs_quote (open_quote s start i))
     = abs_quote (open_quote s start (Suc i))"
  by (auto simp: handle_quotes_def prevChar_at_def abs_quote_def is_quote_def escaped_def
           split: option.splits)

lemma track_parentheses_eq: "track_parentheses c l = l + paren_value c"
  by (simp add: track_parentheses_def paren_value_def)

lemma paren_value_quote: "is_quote c \<Longrightarrow> paren_value c = 0"
  by (auto simp: is_quote_def paren_value_def)

lemma open_quote_before: "i \<le> start \<Longrightarrow> open_quote s start i = None"
  by (cases i) simp_all

lemma open_quote_change:
  "start \<le> i \<Longrightarrow> open_quote s start (Suc i) \<noteq> open_quote s start i \<Longrightarrow> is_quote (s ! i)"
  by (cases "is_quote (s ! i)") simp_all

lemma depth_Suc:
  "start \<le> i \<Longrightarrow> depth s start (Suc i)
     = depth s start i + (if open_quote s start i = None then paren_value (s ! i) else 0)"
  by simp

lemma depth_step_open:
  assumes "start \<le> i" and "open_quote s start (Suc i) = None"
  shows "depth s start (Suc i) = depth s start i + paren_value (s ! i)"
proof (cases "open_quote s start i")
  case None
  then show ?thesis using assms(1) by (simp add: depth_Suc del: depth.simps open_quote.simps)
next
  case (Some qc)
  then have "open_quote s start (Suc i) \<noteq> open_quote s start i"
    unfolding assms(2) by simp
  then have "is_quote (s ! i)" using assms(1) open_quote_change by blast
  then have "paren_value (s ! i) = 0" by (rule paren_value_quote)
  then show ?thesis
    using Some assms(1) by (simp add: depth_Suc del: depth.simps open_quote.simps)
qed

lemma depth_step_closed:
  assumes "start \<le> i" and "open_quote s start (Suc i) \<noteq> None"
  shows "depth s start (Suc i) = depth s start i"
proof (cases "open_quote s start i")
  case None
  then have "open_quote s start (Suc i) \<noteq> open_quote s start i"
    using assms(2) by (simp del: open_quote.simps)
  then have "is_quote (s ! i)" using assms(1) open_quote_change by blast
  then have "paren_value (s ! i) = 0" by (rule paren_value_quote)
  then show ?thesis
    using None assms(1) by (simp add: depth_Suc del: depth.simps open_quote.simps)
next
  case (Some qc)
  then show ?thesis using assms(1) by (simp add: depth_Suc del: depth.simps open_quote.simps)
qed

lemma upper_units_no_S:
  "CHR ''S'' \<notin> set (upper_units c) \<Longrightarrow> \<exists>u. upper_units c = [u]"
  using upper_units_cases [of c] by auto

lemma toUpperCase_length:
  "CHR ''S'' \<notin> set (toUpperCase ys) \<Longrightarrow> length (toUpperCase ys) = length ys"
proof (induction ys)
  case Nil
  then show ?case by simp
next
  case (Cons c cs)
  then have "CHR ''S'' \<notin> set (upper_units c)" and "CHR ''S'' \<notin> set (toUpperCase cs)"
    by (simp_all add: toUpperCase_Cons)
  then show ?case
    using upper_units_no_S [of c] Cons.IH by (auto simp: toUpperCase_Cons)
qed

lemma startsWith_toUpperCase:
  "CHR ''S'' \<notin> set p \<Longrightarrow>
   startsWith (toUpperCase xs) p
     = (length p \<le> length xs \<and> toUpperCase (take (length p) xs) = p)"
proof (induction p arbitrary: xs)
  case Nil
  then show ?case by (simp add: startsWith_def)
next
  case (Cons y ys)
  then have y: "y \<noteq> CHR ''S''" and ys: "CHR ''S'' \<notin> set ys" by auto
  note IH = Cons.IH [OF ys]
  show ?case
  proof (cases xs)
    case Nil
    then show ?thesis by (simp add: startsWith_def)
  next
    case (Cons c cs)
    from upper_units_cases [of c]
    consider "upper_units c = ''SS''" | u where "upper_units c = [u]" by blast
    then show ?thesis
    proof cases
      case 1
      then show ?thesis
        using y unfolding Cons by (auto simp: startsWith_def toUpperCase_Cons)
    next
      case 2
      have "startsWith (toUpperCase xs) (y # ys) = (u = y \<and> startsWith (toUpperCase cs) ys)"
        unfolding Cons by (auto simp: startsWith_def toUpperCase_Cons 2)
      also have "\<dots> = (u = y \<and> length ys \<le> length cs \<and> toUpperCase (take (length ys) cs) = ys)"
        by (simp only: IH)
      also have "\<dots> = (length (y # ys) \<le> length xs
                        \<and> toUpperCase (take (length (y # ys)) xs) = y # ys)"
        unfolding Cons by (auto simp: toUpperCase_Cons 2)
      finally show ?thesis .
    qed
  qed
qed

lemma keyword_at_length: "keyword_at s i \<Longrightarrow> i + 6 \<le> length s"
proof -
  assume k: "keyword_at s i"
  then have "CHR ''S'' \<notin> set (toUpperCase (take 6 (drop i s)))"
    unfolding keyword_at_def by simp
  then have "length (toUpperCase (take 6 (drop i s))) = length (take 6 (drop i s))"
    by (rule toUpperCase_length)
  moreover have "length (toUpperCase (take 6 (drop i s))) = 6"
    using k unfolding keyword_at_def by simp
  ultimately show ?thesis by simp
qed

lemma keyword_at_startsWith:
  "keyword_at s i = startsWith (toUpperCase (drop i s)) '' FROM ''"
proof -
  have p: "CHR ''S'' \<notin> set '' FROM ''" by simp
  have six: "length '' FROM '' = 6" by simp
  have "startsWith (toUpperCase (drop i s)) '' FROM ''
          = (6 \<le> length (drop i s) \<and> keyword_at s i)"
    unfolding startsWith_toUpperCase [OF p] six keyword_at_def ..
  then show ?thesis using keyword_at_length [of s i] by auto
qed

lemma upper_units_hd_blank: "hd (upper_units c) = CHR '' '' \<Longrightarrow> c = CHR '' ''"
proof -
  assume a: "hd (upper_units c) = CHR '' ''"
  have "is_space (CHR '' '')" by (simp add: is_space_def)
  then have sp: "is_space c" using a upper_units_space(1) [of c] by simp
  from upper_units_cases [of c] show ?thesis
  proof (elim disjE exE conjE)
    assume "c = CHR 0xDF"
    then show ?thesis using sp by (simp add: is_space_def)
  next
    assume "upper_units c = [c]"
    then show ?thesis using a by simp
  next
    fix u assume "c \<in> set (lower_letters @ latin1_lower)"
    then show ?thesis using sp cased_letter_not_space(1) by blast
  qed
qed

lemma keyword_at_space: "keyword_at s i \<Longrightarrow> s ! i = CHR '' ''"
proof -
  assume k: "keyword_at s i"
  then have l: "i + 6 \<le> length s" by (rule keyword_at_length)
  then have t: "take 6 (drop i s) = s ! i # take 5 (drop (Suc i) s)"
    by (simp add: take_Suc_conv_app_nth Cons_nth_drop_Suc [symmetric] eval_nat_numeral)
  from k have "hd (toUpperCase (take 6 (drop i s))) = hd '' FROM ''"
    unfolding keyword_at_def by (rule arg_cong)
  then have "hd (upper_units (s ! i)) = CHR '' ''"
    unfolding t by (simp add: toUpperCase_Cons upper_units_nonempty)
  then show ?thesis by (rule upper_units_hd_blank)
qed

lemma depth_before: "i \<le> start \<Longrightarrow> depth s start i = 0"
  by (cases i) simp_all

lemma open_quote_plain:
  "start \<le> i \<Longrightarrow> \<not> is_quote (s ! i) \<Longrightarrow> open_quote s start (Suc i) = open_quote s start i"
  by simp

lemma depth_plain:
  "start \<le> i \<Longrightarrow> paren_value (s ! i) = 0 \<Longrightarrow> depth s start (Suc i) = depth s start i"
  by (simp add: depth_Suc del: depth.simps open_quote.simps)

lemma plain_char_step:
  assumes "start \<le> i" and "\<not> is_quote (s ! i)" and "paren_value (s ! i) = 0"
  shows "handle_quotes (s ! i) (prevChar_at s i) (abs_quote (open_quote s start i))
           = abs_quote (open_quote s start i)"
    and "track_parentheses (s ! i) l = l"
    and "open_quote s start (Suc i) = open_quote s start i"
    and "depth s start (Suc i) = depth s start i"
proof -
  show "open_quote s start (Suc i) = open_quote s start i"
    using assms(1,2) by (rule open_quote_plain)
  then show "handle_quotes (s ! i) (prevChar_at s i) (abs_quote (open_quote s start i))
           = abs_quote (open_quote s start i)"
    using handle_quotes_step [OF assms(1), of s] by (simp del: open_quote.simps)
  show "track_parentheses (s ! i) l = l"
    using assms(3) by (simp add: track_parentheses_eq)
  show "depth s start (Suc i) = depth s start i"
    using assms(1,3) by (rule depth_plain)
qed

lemma space_plain: "\<not> is_quote (CHR '' '')" "paren_value (CHR '' '') = 0"
  by (simp_all add: is_quote_def paren_value_def)

lemma comma_plain: "\<not> is_quote (CHR '','')" "paren_value (CHR '','') = 0"
  by (simp_all add: is_quote_def paren_value_def)

lemma fst_abs_quote: "fst (abs_quote oq) = (oq \<noteq> None)"
  by (simp add: abs_quote_def)

lemma find_select_end_inv:
  "start \<le> i \<Longrightarrow>
   find_select_end s i (depth s start i) (abs_quote (open_quote s start i))
     = (case filter (\<lambda>j. keyword_at s j \<and> top_level s start j) [i..<length s] of
          [] \<Rightarrow> length s
        | j # _ \<Rightarrow> j)"
proof (induction "length s - i" arbitrary: i)
  case 0
  then have a: "\<not> i + 4 < length s" by simp
  have "find_select_end s i (depth s start i) (abs_quote (open_quote s start i)) = length s"
    by (subst find_select_end.simps) (simp add: a del: depth.simps open_quote.simps)
  moreover have "filter (\<lambda>j. keyword_at s j \<and> top_level s start j) [i..<length s] = []"
    using 0 by simp
  ultimately show ?case by (simp only: list.case)
next
  case (Suc n)
  let ?P = "\<lambda>j. keyword_at s j \<and> top_level s start j"
  from Suc.hyps(2) have i: "i < length s" by simp
  then have upt: "[i..<length s] = i # [Suc i..<length s]" by (rule upt_conv_Cons)
  have n: "n = length s - Suc i" using Suc.hyps(2) by simp
  have le: "start \<le> Suc i" using Suc.prems by simp
  note IH = Suc.hyps(1) [OF n le]
  show ?case
  proof (cases "i + 4 < length s")
    case False
    have "filter ?P [i..<length s] = []"
    proof -
      have "\<not> ?P j" if "j \<in> set [i..<length s]" for j
      proof
        assume "?P j"
        then have "j + 6 \<le> length s" using keyword_at_length by blast
        then show False using that False by simp
      qed
      then show ?thesis unfolding filter_empty_conv by blast
    qed
    then show ?thesis
      using False
      by (subst find_select_end.simps) (simp del: depth.simps open_quote.simps)
  next
    case True
    note q' = handle_quotes_step [OF Suc.prems, of s]
    show ?thesis
    proof (cases "?P i")
      case Pi: True
      then have sp: "s ! i = CHR '' ''" using keyword_at_space by blast
      have pl: "\<not> is_quote (s ! i)" "paren_value (s ! i) = 0"
        unfolding sp by (rule space_plain)+
      note st = plain_char_step [OF Suc.prems pl]
      from Pi have oq: "open_quote s start i = None" and d: "depth s start i = 0"
        by (simp_all add: top_level_def)
      have k: "startsWith (toUpperCase (drop i s)) '' FROM ''"
        using Pi by (simp add: keyword_at_startsWith)
      have "find_select_end s i (depth s start i) (abs_quote (open_quote s start i)) = i"
        by (subst find_select_end.simps)
           (simp add: True st(1) [unfolded oq] st(2) fst_abs_quote oq d k Let_def
                 del: depth.simps open_quote.simps)
      moreover have "(case filter ?P [i..<length s] of [] \<Rightarrow> length s | j # _ \<Rightarrow> j) = i"
        unfolding upt using Pi by simp
      ultimately show ?thesis by simp
    next
      case nPi: False
      have rhs: "(case filter ?P [i..<length s] of [] \<Rightarrow> length s | j # _ \<Rightarrow> j)
                 = (case filter ?P [Suc i..<length s] of [] \<Rightarrow> length s | j # _ \<Rightarrow> j)"
        unfolding upt using nPi by auto
      show ?thesis
      proof (cases "open_quote s start (Suc i)")
        case None
        note d' = depth_step_open [OF Suc.prems None]
        have test: "\<not> (depth s start (Suc i) = 0 \<and> startsWith (toUpperCase (drop i s)) '' FROM '')"
        proof
          assume a: "depth s start (Suc i) = 0 \<and> startsWith (toUpperCase (drop i s)) '' FROM ''"
          then have k: "keyword_at s i" by (simp add: keyword_at_startsWith)
          then have sp: "s ! i = CHR '' ''" by (rule keyword_at_space)
          have pl: "\<not> is_quote (s ! i)" "paren_value (s ! i) = 0"
            unfolding sp by (rule space_plain)+
          note st = plain_char_step [OF Suc.prems pl]
          have "top_level s start i"
            using a None st(3,4) by (simp add: top_level_def del: depth.simps open_quote.simps)
          with k nPi show False by simp
        qed
        have "find_select_end s i (depth s start i) (abs_quote (open_quote s start i))
              = find_select_end s (Suc i) (depth s start (Suc i)) (abs_quote (open_quote s start (Suc i)))"
          using test
          by (subst find_select_end.simps)
             (auto simp add: True q' fst_abs_quote None d' [symmetric] track_parentheses_eq Let_def
                   simp del: depth.simps open_quote.simps)
        then show ?thesis using IH rhs by simp
      next
        case (Some qc)
        then have ne: "open_quote s start (Suc i) \<noteq> None" by simp
        note d' = depth_step_closed [OF Suc.prems ne]
        have "find_select_end s i (depth s start i) (abs_quote (open_quote s start i))
              = find_select_end s (Suc i) (depth s start (Suc i)) (abs_quote (open_quote s start (Suc i)))"
          by (subst find_select_end.simps)
             (simp add: True q' fst_abs_quote Some d' Let_def del: depth.simps open_quote.simps)
        then show ?thesis using IH rhs by simp
      qed
    qed
  qed
qed

lemma find_select_end_spec:
  "find_select_end s start 0 (False, None) = clause_end_spec s start"
  using find_select_end_inv [of start start s]
  by (simp add: clause_end_spec_def open_quote_before depth_before abs_quote_def
           del: depth.simps open_quote.simps)


lemma split_marked_nonempty: "split_marked zs \<noteq> []"
  by (cases zs) (auto simp: Let_def split: if_splits)

lemma length_marked: "length (marked s) = length s"
  by (simp add: marked_def)

lemma drop_marked:
  "i < length s \<Longrightarrow> drop i (marked s) = (s ! i, separator_at s i) # drop (Suc i) (marked s)"
proof -
  assume i: "i < length s"
  then have "drop i (marked s) = marked s ! i # drop (Suc i) (marked s)"
    by (simp add: Cons_nth_drop_Suc length_marked)
  moreover have "marked s ! i = (s ! i, separator_at s i)"
    using i by (simp add: marked_def)
  ultimately show ?thesis by simp
qed

lemma split_loop_inv:
  "split_loop s i parts cur (depth s 0 i) (abs_quote (open_quote s 0 i))
     = (parts @ map trim (butlast ((cur @ hd (split_marked (drop i (marked s))))
                                     # tl (split_marked (drop i (marked s))))),
        last ((cur @ hd (split_marked (drop i (marked s))))
                # tl (split_marked (drop i (marked s)))))"
proof (induction "length s - i" arbitrary: i parts cur)
  case 0
  then have a: "\<not> i < length s" by simp
  then have "drop i (marked s) = []" by (simp add: length_marked)
  moreover have "split_loop s i parts cur (depth s 0 i) (abs_quote (open_quote s 0 i)) = (parts, cur)"
    by (subst split_loop.simps) (simp add: a del: depth.simps open_quote.simps)
  ultimately show ?case by (simp del: depth.simps open_quote.simps)
next
  case (Suc n)
  from Suc.hyps(2) have i: "i < length s" by simp
  have n: "n = length s - Suc i" using Suc.hyps(2) by simp
  note IH = Suc.hyps(1) [OF n]
  let ?R' = "split_marked (drop (Suc i) (marked s))"
  have R': "?R' \<noteq> []" by (rule split_marked_nonempty)
  have z: "0 \<le> i" by simp
  note q' = handle_quotes_step [OF z, of s]
  show ?case
  proof (cases "separator_at s i")
    case sep: True
    then have c: "s ! i = CHR '',''" and oq: "open_quote s 0 i = None" and d: "depth s 0 i = 0"
      by (simp_all add: separator_at_def top_level_def)
    have pl: "\<not> is_quote (s ! i)" "paren_value (s ! i) = 0"
      unfolding c by (rule comma_plain)+
    note st = plain_char_step [OF z pl]
    have "split_loop s i parts cur (depth s 0 i) (abs_quote (open_quote s 0 i))
          = split_loop s (Suc i) (parts @ [trim cur]) [] (depth s 0 (Suc i))
              (abs_quote (open_quote s 0 (Suc i)))"
      unfolding st(3,4)
      by (subst split_loop.simps)
         (simp add: i st(1) [unfolded oq c] st(2) [unfolded c] fst_abs_quote oq d c Let_def
               del: depth.simps open_quote.simps)
    moreover have "split_marked (drop i (marked s)) = [] # ?R'"
      using sep by (simp add: drop_marked [OF i] Let_def)
    ultimately show ?thesis
      using R' by (simp add: IH del: depth.simps open_quote.simps)
  next
    case nsep: False
    have R: "split_marked (drop i (marked s)) = (s ! i # hd ?R') # tl ?R'"
      using nsep by (simp add: drop_marked [OF i] Let_def)
    have "split_loop s i parts cur (depth s 0 i) (abs_quote (open_quote s 0 i))
          = split_loop s (Suc i) parts (cur @ [s ! i]) (depth s 0 (Suc i))
              (abs_quote (open_quote s 0 (Suc i)))"
    proof (cases "open_quote s 0 (Suc i)")
      case None
      note d' = depth_step_open [OF z None]
      have test: "\<not> (s ! i = CHR '','' \<and> depth s 0 (Suc i) = 0)"
      proof
        assume a: "s ! i = CHR '','' \<and> depth s 0 (Suc i) = 0"
        then have c: "s ! i = CHR '',''" by simp
        have pl: "\<not> is_quote (s ! i)" "paren_value (s ! i) = 0"
          unfolding c by (rule comma_plain)+
        note st = plain_char_step [OF z pl]
        have "top_level s 0 i"
          using a None st(3,4) by (simp add: top_level_def del: depth.simps open_quote.simps)
        with c nsep show False by (simp add: separator_at_def)
      qed
      show ?thesis
        using test
        by (subst split_loop.simps)
           (auto simp add: i q' fst_abs_quote None d' [symmetric] track_parentheses_eq Let_def
                 simp del: depth.simps open_quote.simps)
    next
      case (Some qc)
      then have ne: "open_quote s 0 (Suc i) \<noteq> None" by simp
      note d' = depth_step_closed [OF z ne]
      show ?thesis
        by (subst split_loop.simps)
           (simp add: i q' fst_abs_quote Some d' Let_def del: depth.simps open_quote.simps)
    qed
    then show ?thesis
      by (simp add: IH R del: depth.simps open_quote.simps)
  qed
qed

lemma split_loop_spec:
  "split_loop s 0 [] [] 0 (False, None)
     = (map trim (butlast (raw_segments s)), last (raw_segments s))"
proof -
  have "raw_segments s \<noteq> []"
    unfolding raw_segments_def by (rule split_marked_nonempty)
  then have "hd (raw_segments s) # tl (raw_segments s) = raw_segments s" by simp
  then show ?thesis
    using split_loop_inv [of s 0 "[]" "[]"]
    by (simp add: raw_segments_def abs_quote_def)
qed

lemma splitSelectColumns_spec: "splitSelectColumns s = split_spec s"
  by (simp add: splitSelectColumns_def split_loop_spec split_spec_def)

lemma extractSelectClause_spec:
  "extractSelectClause q
     = trim (substring q (selectStart_of q) (clause_end_spec q (selectStart_of q)))"
  by (simp add: extractSelectClause_def find_select_end_spec Let_def)

lemma split_marked_unmarked:
  "list_all (\<lambda>z. \<not> snd z) zs \<Longrightarrow> split_marked zs = [map fst zs]"
  by (induction zs) (auto simp: Let_def)

lemma map_fst_marked: "map fst (marked s) = s"
  by (simp add: marked_def)

lemma raw_segments_unsplit:
  assumes "\<forall>i<length c. c ! i = CHR '','' \<longrightarrow> \<not> top_level c 0 i"
  shows "raw_segments c = [c]"
proof -
  have "list_all (\<lambda>z. \<not> snd z) (marked c)"
    unfolding list_all_length length_marked
    using assms by (simp add: marked_def separator_at_def)
  then have "split_marked (marked c) = [map fst (marked c)]"
    by (rule split_marked_unmarked)
  then show ?thesis by (simp add: raw_segments_def map_fst_marked)
qed

lemma clause_end_spec_cases:
  "clause_end_spec q start = length q
   \<or> (keyword_at q (clause_end_spec q start) \<and> top_level q start (clause_end_spec q start))"
proof (cases "filter (\<lambda>i. keyword_at q i \<and> top_level q start i) [start..<length q]")
  case Nil
  then show ?thesis by (simp add: clause_end_spec_def)
next
  case (Cons j js)
  then have "j \<in> set (filter (\<lambda>i. keyword_at q i \<and> top_level q start i) [start..<length q])"
    by simp
  then have "keyword_at q j \<and> top_level q start j" by simp
  then show ?thesis using Cons by (simp add: clause_end_spec_def)
qed

text \<open>
  C7. The clause ends at the first top-level occurrence of \<^verbatim>\<open> FROM \<close>, or at the
  end of the text: an occurrence inside parentheses or inside a quoted literal never
  ends it. The splitter cuts the clause at its top-level commas and nowhere else: a
  clause whose commas all stand inside parentheses or quoted literals is one segment.
\<close>

theorem C7_nesting_safety:
  "extractSelectClause q
     = trim (substring q (selectStart_of q) (clause_end_spec q (selectStart_of q)))
   \<and> (clause_end_spec q (selectStart_of q) = length q
        \<or> (keyword_at q (clause_end_spec q (selectStart_of q))
            \<and> top_level q (selectStart_of q) (clause_end_spec q (selectStart_of q))))
   \<and> splitSelectColumns c = split_spec c
   \<and> ((\<forall>i<length c. c ! i = CHR '','' \<longrightarrow> \<not> top_level c 0 i) \<longrightarrow> raw_segments c = [c])"
  using extractSelectClause_spec [of q] clause_end_spec_cases [of q "selectStart_of q"]
    splitSelectColumns_spec [of c] raw_segments_unsplit [of c]
  by blast


theorem C7_nesting_safety_witness:
  "extractSelectClause ''SELECT f(a, 'x FROM y'), (SELECT b, c FROM t) d FROM u''
     = ''f(a, 'x FROM y'), (SELECT b, c FROM t) d''
   \<and> splitSelectColumns ''f(a, 'x, y'), (SELECT b, c FROM t) d''
     = [''f(a, 'x, y')'', ''(SELECT b, c FROM t) d'']"
proof -
  let ?q = "''SELECT f(a, 'x FROM y'), (SELECT b, c FROM t) d FROM u''"
  let ?c = "''f(a, 'x, y'), (SELECT b, c FROM t) d''"
  have a: "trim (substring ?q (selectStart_of ?q) (clause_end_spec ?q (selectStart_of ?q)))
             = ''f(a, 'x FROM y'), (SELECT b, c FROM t) d''"
    by code_simp
  have b: "split_spec ?c = [''f(a, 'x, y')'', ''(SELECT b, c FROM t) d'']"
    by code_simp
  have "extractSelectClause ?q
          = trim (substring ?q (selectStart_of ?q) (clause_end_spec ?q (selectStart_of ?q)))"
    and "splitSelectColumns ?c = split_spec ?c"
    using C7_nesting_safety [of ?q ?c] by blast+
  then show ?thesis by (simp only: a b)
qed

subsection \<open>The number of names\<close>

lemma extractColumnName_Nil: "extractColumnName this [] = []"
proof -
  have "split_ws [] = [[]]" by (simp add: split_ws.simps [of "[]"])
  then show ?thesis
    by (simp add: extractColumnName_def trim_def startsWith_def
        match_function_call_def operator_test_def Let_def)
qed

lemma length_filter_mono:
  "(\<And>x. P x \<Longrightarrow> Q x) \<Longrightarrow> length (filter P xs) \<le> length (filter Q xs)"
  by (induction xs) auto

lemma names_of_segments:
  "filter (\<lambda>n. n \<noteq> []) (map (\<lambda>p. extractColumnName this (trim p)) (split_spec c))
     = filter (\<lambda>n. n \<noteq> []) (map (extractColumnName this) (segments c))"
proof -
  let ?R = "raw_segments c"
  have R: "?R \<noteq> []" unfolding raw_segments_def by (rule split_marked_nonempty)
  then have s: "segments c = map trim (butlast ?R) @ [trim (last ?R)]"
  proof -
    have "map trim (butlast ?R @ [last ?R]) = map trim (butlast ?R) @ [trim (last ?R)]"
      by simp
    then show ?thesis using R by (simp add: segments_def)
  qed
  show ?thesis
  proof (cases "trim (last ?R) = []")
    case True
    then show ?thesis
      by (simp add: split_spec_def s trim_trim extractColumnName_Nil comp_def)
  next
    case False
    then show ?thesis
      by (simp add: split_spec_def s trim_trim comp_def)
  qed
qed

text \<open>
  C3, as amended. The number of names returned is the number of top-level
  comma-separated segments of the SELECT clause whose derived name is not empty; it is
  at most the number of non-empty segments.
\<close>

theorem C3_name_count:
  assumes "analyzeQuery this (JSString s) = Inr names"
  shows "length names
           = length (filter (\<lambda>e. extractColumnName this e \<noteq> [])
                       (segments (extractSelectClause (cleanQuery s))))
     \<and> length names
           \<le> length (filter (\<lambda>e. e \<noteq> []) (segments (extractSelectClause (cleanQuery s))))"
proof -
  let ?segs = "segments (extractSelectClause (cleanQuery s))"
  have "names = parseSelectColumns this (extractSelectClause (cleanQuery s))"
    using assms unfolding analyzeQuery_string by (simp split: if_splits)
  then have names: "names = filter (\<lambda>n. n \<noteq> []) (map (extractColumnName this) ?segs)"
    by (simp add: parseSelectColumns_def push_names_eq splitSelectColumns_spec names_of_segments)
  have 1: "length names = length (filter (\<lambda>e. extractColumnName this e \<noteq> []) ?segs)"
    unfolding names by (simp add: filter_map comp_def)
  have "length (filter (\<lambda>e. extractColumnName this e \<noteq> []) ?segs)
        \<le> length (filter (\<lambda>e. e \<noteq> []) ?segs)"
  proof (rule length_filter_mono)
    fix e assume "extractColumnName this e \<noteq> []"
    then show "e \<noteq> []" using extractColumnName_Nil by blast
  qed
  with 1 show ?thesis by simp
qed

theorem C3_name_count_witness:
  "analyzeQuery SQLQueryAnalyzer (JSString ''SELECT name, email, age FROM users'')
     = Inr [''name'', ''email'', ''age'']
   \<and> length [''name'', ''email'', ''age'']
     = length (filter (\<lambda>e. extractColumnName SQLQueryAnalyzer e \<noteq> [])
                 (segments (extractSelectClause (cleanQuery ''SELECT name, email, age FROM users''))))"
proof -
  have h: "analyzeQuery SQLQueryAnalyzer (JSString ''SELECT name, email, age FROM users'')
     = Inr [''name'', ''email'', ''age'']"
    by code_simp
  show ?thesis
    using h C3_name_count [OF h, THEN conjunct1] by (rule conjI)
qed

text \<open>
  The claim as stated fails: both segments of this clause are non-empty, and one name is
  returned, since the derived name of \<^verbatim>\<open>a.\<close> is the empty string.
\<close>

theorem C3_counterexample:
  "analyzeQuery SQLQueryAnalyzer (JSString ''SELECT a., b FROM t'') = Inr [''b'']
   \<and> filter (\<lambda>e. e \<noteq> []) (segments (extractSelectClause (cleanQuery ''SELECT a., b FROM t'')))
     = [''a.'', ''b'']"
  by code_simp

subsection \<open>Naming rules\<close>

lemma is_word_not_space: "is_word c \<Longrightarrow> \<not> is_space c"
  by (auto simp: is_word_def is_letter_or_underscore_def is_digit_def is_space_def
      lower_letters_def upper_letters_def)

lemma upper_A_not_space: "upper_char x = CHR ''A'' \<Longrightarrow> \<not> is_space x"
  using is_space_upper_char [of x] by (simp add: is_space_def)

lemma word_plus_hd: "word_plus w \<Longrightarrow> w \<noteq> [] \<and> \<not> is_space (hd w)"
  by (cases w) (auto simp: word_plus_def is_word_not_space)

lemma word_plus_no_space: "word_plus w \<Longrightarrow> list_all (\<lambda>c. \<not> is_space c) w"
  by (auto simp: word_plus_def list_all_iff is_word_not_space)

lemma span_spaces:
  assumes "list_all is_space w" and "r \<noteq> []" and "\<not> is_space (hd r)"
  shows "takeWhile is_space (w @ r) = w" and "dropWhile is_space (w @ r) = r"
proof -
  obtain x xs where r: "r = x # xs" using assms(2) by (cases r) auto
  then have x: "\<not> is_space x" using assms(3) by simp
  show "takeWhile is_space (w @ r) = w"
    using assms(1) x unfolding r by (simp add: list_all_iff)
  show "dropWhile is_space (w @ r) = r"
    using assms(1) x unfolding r by (simp add: list_all_iff)
qed

lemma as_word_end_iff: "as_word_end r = Some ident \<longleftrightarrow> as_then_identifier r ident"
proof
  assume a: "as_word_end r = Some ident"
  then obtain x y r' where r: "r = x # y # r'"
    by (cases r rule: list.exhaust [case_product list.exhaust])
       (auto simp: as_word_end_def split: list.splits)
  from a have c: "upper_char x = CHR ''A''" "upper_char y = CHR ''S''"
    "takeWhile is_space r' \<noteq> []" "word_plus ident" "ident = dropWhile is_space r'"
    unfolding r as_word_end_def by (auto split: if_splits)
  have "r' = takeWhile is_space r' @ ident"
    unfolding c(5) by simp
  moreover have "list_all is_space (takeWhile is_space r')"
    by (simp add: list_all_iff) (meson set_takeWhileD)
  ultimately show "as_then_identifier r ident"
    unfolding as_then_identifier_def r using c(1-4) by blast
next
  assume "as_then_identifier r ident"
  then obtain x y w where r: "r = x # y # w @ ident"
    and c: "upper_char x = CHR ''A''" "upper_char y = CHR ''S''" "w \<noteq> []"
      "list_all is_space w" "word_plus ident"
    unfolding as_then_identifier_def by blast
  have i: "ident \<noteq> []" "\<not> is_space (hd ident)"
    using word_plus_hd [OF c(5)] by simp_all
  note sp = span_spaces [OF c(4) i]
  show "as_word_end r = Some ident"
    unfolding r as_word_end_def by (simp add: sp c del: takeWhile_append dropWhile_append)
qed

lemma as_then_identifier_hd:
  "as_then_identifier r ident \<Longrightarrow> r \<noteq> [] \<and> \<not> is_space (hd r)"
  by (auto simp: as_then_identifier_def upper_A_not_space)

lemma as_then_identifier_not_word: "as_then_identifier t ident \<Longrightarrow> \<not> word_plus t"
proof
  assume a: "as_then_identifier t ident" and w: "word_plus t"
  from a obtain x y ws where t: "t = x # y # ws @ ident" and ws: "ws \<noteq> []" "list_all is_space ws"
    unfolding as_then_identifier_def by blast
  from ws have "is_space (hd ws)" "hd ws \<in> set t"
    unfolding t by (cases ws; simp)+
  then show False using word_plus_no_space [OF w] by (auto simp: list_all_iff)
qed

lemma match_optional_as_iff: "match_optional_as t = Some ident \<longleftrightarrow> alias_text t ident"
proof (cases "as_word_end t")
  case None
  then have "\<not> as_then_identifier t ident" using as_word_end_iff [of t ident] by simp
  then show ?thesis using None by (auto simp: match_optional_as_def alias_text_def)
next
  case (Some w)
  then have w: "as_then_identifier t w" by (simp add: as_word_end_iff)
  then have nw: "\<not> word_plus t" by (rule as_then_identifier_not_word)
  have "as_then_identifier t ident \<longleftrightarrow> w = ident"
    using Some as_word_end_iff [of t ident] by auto
  then show ?thesis
    using Some nw by (auto simp: match_optional_as_def alias_text_def)
qed

lemma match_optional_as_None: "match_optional_as t = None \<longleftrightarrow> (\<forall>ident. \<not> alias_text t ident)"
  using match_optional_as_iff [of t] by (cases "match_optional_as t") auto

lemma alias_text_nonempty: "alias_text t ident \<Longrightarrow> t \<noteq> []"
  by (auto simp: alias_text_def as_then_identifier_def word_plus_def)

lemma lastIndexOf_None: "c \<notin> set e \<Longrightarrow> lastIndexOf e c = None"
  by (induction e) auto

lemma lastIndexOf_append: "c \<notin> set post \<Longrightarrow> lastIndexOf (pre @ c # post) c = Some (length pre)"
  by (induction pre) (simp_all add: lastIndexOf_None)

lemma subquery_name:
  assumes "startsWith (trim e) ''(''" and "e = pre @ CHR '')'' # post" and "CHR '')'' \<notin> set post"
  shows "extractColumnName this e
           = (case match_optional_as (trim post) of Some w \<Rightarrow> w | None \<Rightarrow> ''subquery_result'')"
proof -
  have l: "lastIndexOf e (CHR '')'') = Some (length pre)"
    unfolding assms(2) using assms(3) by (rule lastIndexOf_append)
  have d: "drop (Suc (length pre)) e = post" unfolding assms(2) by simp
  have n: "match_optional_as [] = None"
    by (simp add: match_optional_as_def as_word_end_def word_plus_def)
  have m: "match_optional_as (trim post) = None \<Longrightarrow> match_word_only (trim post) = None"
    by (auto simp: match_optional_as_def match_word_only_def split: option.splits if_splits)
  show ?thesis
    using assms(1) m n
    by (cases "match_optional_as (trim post)")
       (auto simp: extractColumnName_def l d Let_def)
qed

text \<open>
  C6, as amended. For an expression whose first non-space character is an opening
  parenthesis, the name depends on the trimmed text after the last closing parenthesis
  only: when that text is \<^verbatim>\<open>AS\<close> (in any case) and a word, or one bare word, the
  name is that word; otherwise, and when there is no closing parenthesis, it is
  \<^verbatim>\<open>subquery_result\<close>. The word is any non-empty run of letters, digits and
  underscores: it may start with a digit.
\<close>

theorem C6_subquery_name:
  assumes "startsWith (trim e) ''(''"
  shows "(CHR '')'' \<notin> set e \<longrightarrow> extractColumnName this e = ''subquery_result'')
     \<and> (\<forall>pre post. e = pre @ CHR '')'' # post \<and> CHR '')'' \<notin> set post \<longrightarrow>
           (\<forall>ident. alias_text (trim post) ident \<longrightarrow> extractColumnName this e = ident)
         \<and> ((\<forall>ident. \<not> alias_text (trim post) ident) \<longrightarrow>
               extractColumnName this e = ''subquery_result''))"
proof (intro conjI allI impI)
  assume "CHR '')'' \<notin> set e"
  then have "lastIndexOf e (CHR '')'') = None" by (rule lastIndexOf_None)
  then show "extractColumnName this e = ''subquery_result''"
    using assms by (simp add: extractColumnName_def)
next
  fix pre post ident
  assume a: "e = pre @ CHR '')'' # post \<and> CHR '')'' \<notin> set post"
    and b: "alias_text (trim post) ident"
  from b have "match_optional_as (trim post) = Some ident" by (simp add: match_optional_as_iff)
  then show "extractColumnName this e = ident"
    using subquery_name [OF assms, of pre post this] a by simp
next
  fix pre post
  assume a: "e = pre @ CHR '')'' # post \<and> CHR '')'' \<notin> set post"
    and b: "\<forall>ident. \<not> alias_text (trim post) ident"
  from b have "match_optional_as (trim post) = None" by (simp add: match_optional_as_None)
  then show "extractColumnName this e = ''subquery_result''"
    using subquery_name [OF assms, of pre post this] a by simp
qed


theorem C6_subquery_name_witness:
  "extractColumnName SQLQueryAnalyzer ''(SELECT COUNT(*) FROM orders) as order_count'' = ''order_count''
   \<and> extractColumnName SQLQueryAnalyzer ''(SELECT MAX(x) FROM t) 2nd'' = ''2nd''
   \<and> extractColumnName SQLQueryAnalyzer ''(a + b) * c'' = ''subquery_result''"
proof -
  let ?e1 = "''(SELECT COUNT(*) FROM orders) as order_count''"
  let ?e2 = "''(SELECT MAX(x) FROM t) 2nd''"
  let ?e3 = "''(a + b) * c''"
  have p: "startsWith (trim ?e1) ''(''" "startsWith (trim ?e2) ''(''" "startsWith (trim ?e3) ''(''"
    by code_simp+
  have s1: "?e1 = ''(SELECT COUNT(*) FROM orders'' @ CHR '')'' # '' as order_count''
        \<and> CHR '')'' \<notin> set '' as order_count''" by simp
  have t1: "trim '' as order_count'' = ''as order_count''" by code_simp
  have "as_then_identifier ''as order_count'' ''order_count''"
    unfolding as_then_identifier_def
    by (intro exI [of _ "CHR ''a''"] exI [of _ "CHR ''s''"] exI [of _ "'' ''"]) code_simp
  then have a1: "alias_text (trim '' as order_count'') ''order_count''"
    unfolding t1 alias_text_def by (rule disjI2)
  have r1: "extractColumnName SQLQueryAnalyzer ?e1 = ''order_count''"
    using C6_subquery_name [OF p(1), of SQLQueryAnalyzer] s1 a1 by blast
  have s2: "?e2 = ''(SELECT MAX(x) FROM t'' @ CHR '')'' # '' 2nd''
        \<and> CHR '')'' \<notin> set '' 2nd''" by simp
  have "trim '' 2nd'' = ''2nd'' \<and> word_plus ''2nd''" by code_simp
  then have a2: "alias_text (trim '' 2nd'') ''2nd''"
    unfolding alias_text_def by simp
  have r2: "extractColumnName SQLQueryAnalyzer ?e2 = ''2nd''"
    using C6_subquery_name [OF p(2), of SQLQueryAnalyzer] s2 a2 by blast
  have s3: "?e3 = ''(a + b'' @ CHR '')'' # '' * c''
        \<and> CHR '')'' \<notin> set '' * c''" by simp
  have "match_optional_as (trim '' * c'') = None" by code_simp
  then have a3: "\<forall>ident. \<not> alias_text (trim '' * c'') ident"
    by (simp add: match_optional_as_None)
  have r3: "extractColumnName SQLQueryAnalyzer ?e3 = ''subquery_result''"
    using C6_subquery_name [OF p(3), of SQLQueryAnalyzer] s3 a3 by blast
  from r1 r2 r3 show ?thesis by blast
qed


text \<open>
  The claim as stated fails: the text after the parenthesis is no identifier of the
  specification and has no \<^verbatim>\<open>AS\<close>, and it is returned as the name.
\<close>

theorem C6_counterexample:
  "startsWith (trim ''(x) 2nd'') ''(''
   \<and> \<not> spec_identifier ''2nd''
   \<and> as_word_end ''2nd'' = None
   \<and> extractColumnName SQLQueryAnalyzer ''(x) 2nd'' = ''2nd''"
  by code_simp

lemma as_tail_iff:
  "as_tail s = Some ident
     \<longleftrightarrow> (\<exists>w r. s = w @ r \<and> w \<noteq> [] \<and> list_all is_space w \<and> as_then_identifier r ident)"
proof
  assume a: "as_tail s = Some ident"
  then have w: "takeWhile is_space s \<noteq> []"
    and r: "as_word_end (dropWhile is_space s) = Some ident"
    unfolding as_tail_def by (auto split: if_splits)
  have "s = takeWhile is_space s @ dropWhile is_space s" by simp
  moreover have "list_all is_space (takeWhile is_space s)"
    by (simp add: list_all_iff) (meson set_takeWhileD)
  moreover have "as_then_identifier (dropWhile is_space s) ident"
    using r by (simp add: as_word_end_iff)
  ultimately show "\<exists>w r. s = w @ r \<and> w \<noteq> [] \<and> list_all is_space w \<and> as_then_identifier r ident"
    using w by blast
next
  assume "\<exists>w r. s = w @ r \<and> w \<noteq> [] \<and> list_all is_space w \<and> as_then_identifier r ident"
  then obtain w r where s: "s = w @ r" and w: "w \<noteq> []" "list_all is_space w"
    and r: "as_then_identifier r ident" by blast
  have h: "r \<noteq> []" "\<not> is_space (hd r)"
    using as_then_identifier_hd [OF r] by simp_all
  note sp = span_spaces [OF w(2) h]
  show "as_tail s = Some ident"
    unfolding s as_tail_def sp using w(1) r by (simp add: as_word_end_iff)
qed

lemma as_search_sound:
  "as_search e = Some ident \<Longrightarrow> \<exists>a t. e = a @ t \<and> a \<noteq> [] \<and> as_tail t = Some ident"
proof (induction e)
  case Nil
  then show ?case by simp
next
  case (Cons c cs)
  show ?case
  proof (cases "as_tail cs")
    case None
    then have "as_search cs = Some ident"
      using Cons.prems by (simp split: if_splits)
    then obtain a t where "cs = a @ t" "as_tail t = Some ident"
      using Cons.IH by blast
    then have "c # cs = (c # a) @ t \<and> c # a \<noteq> [] \<and> as_tail t = Some ident" by simp
    then show ?thesis by blast
  next
    case (Some w)
    then have "w = ident" using Cons.prems by (simp split: if_splits)
    then have "c # cs = [c] @ cs \<and> [c] \<noteq> [] \<and> as_tail cs = Some ident"
      using Some by simp
    then show ?thesis by blast
  qed
qed

lemma as_tail_last_token:
  assumes "as_tail t = Some ident"
  shows "rev (takeWhile (\<lambda>c. \<not> is_space c) (rev (a @ t))) = ident"
proof -
  obtain w r where t: "t = w @ r" and r: "as_then_identifier r ident"
    using assms unfolding as_tail_iff by blast
  obtain x y w2 where r2: "r = x # y # w2 @ ident" and w2: "w2 \<noteq> []" "list_all is_space w2"
    and i: "word_plus ident"
    using r unfolding as_then_identifier_def by blast
  have "is_space (last w2)"
    using w2 unfolding list_all_iff using last_in_set [of w2] by blast
  then have h: "rev w2 \<noteq> []" "is_space (hd (rev w2))"
    using w2(1) by (simp_all add: hd_rev)
  obtain z zs where z: "rev w2 = z # zs" using h(1) by (cases "rev w2") auto
  then have zsp: "is_space z" using h(2) by simp
  have e: "rev (a @ t) = rev ident @ z # zs @ y # x # rev w @ rev a"
    unfolding t r2 by (simp add: z)
  have "\<And>c. c \<in> set (rev ident) \<Longrightarrow> \<not> is_space c"
    using word_plus_no_space [OF i] by (simp add: list_all_iff)
  then have "takeWhile (\<lambda>c. \<not> is_space c) (rev ident @ z # zs @ y # x # rev w @ rev a)
        = rev ident @ takeWhile (\<lambda>c. \<not> is_space c) (z # zs @ y # x # rev w @ rev a)"
    by (rule takeWhile_append2)
  then have "takeWhile (\<lambda>c. \<not> is_space c) (rev (a @ t)) = rev ident"
    unfolding e using zsp by simp
  then show ?thesis by simp
qed

lemma as_search_complete:
  "a \<noteq> [] \<Longrightarrow> \<not> list_ex is_line_terminator a \<Longrightarrow> as_tail t = Some ident
   \<Longrightarrow> as_search (a @ t) = Some ident"
proof (induction a)
  case Nil
  then show ?case by simp
next
  case (Cons c a)
  have c: "\<not> is_line_terminator c" using Cons.prems(2) by simp
  show ?case
  proof (cases "as_tail (a @ t)")
    case (Some w)
    have "rev (takeWhile (\<lambda>c. \<not> is_space c) (rev ([c] @ (a @ t)))) = w"
      using Some by (rule as_tail_last_token)
    moreover have "rev (takeWhile (\<lambda>c. \<not> is_space c) (rev ((c # a) @ t))) = ident"
      using Cons.prems(3) by (rule as_tail_last_token)
    ultimately have "w = ident" by simp
    then show ?thesis using c Some by simp
  next
    case None
    then have "a \<noteq> []" using Cons.prems(3) by auto
    moreover have "\<not> list_ex is_line_terminator a" using Cons.prems(2) by simp
    ultimately have "as_search (a @ t) = Some ident"
      using Cons.IH Cons.prems(3) by blast
    then show ?thesis using c None by simp
  qed
qed

lemma as_search_iff:
  assumes "\<not> list_ex is_line_terminator e"
  shows "as_search e = Some ident \<longleftrightarrow> explicit_alias e ident"
proof
  assume "as_search e = Some ident"
  then obtain a t where e: "e = a @ t" and a: "a \<noteq> []" and t: "as_tail t = Some ident"
    using as_search_sound by blast
  from t obtain w r where "t = w @ r" "w \<noteq> []" "list_all is_space w" "as_then_identifier r ident"
    unfolding as_tail_iff by blast
  then show "explicit_alias e ident"
    unfolding explicit_alias_def using e a by blast
next
  assume "explicit_alias e ident"
  then obtain a w r where e: "e = a @ w @ r" and a: "a \<noteq> []"
    and w: "w \<noteq> []" "list_all is_space w" and r: "as_then_identifier r ident"
    unfolding explicit_alias_def by blast
  have t: "as_tail (w @ r) = Some ident"
    unfolding as_tail_iff using w r by blast
  have "\<not> list_ex is_line_terminator a" using assms unfolding e by simp
  then show "as_search e = Some ident"
    unfolding e using as_search_complete [OF a _ t] by blast
qed

text \<open>
  C5, as amended. For an expression that does not start with an opening parenthesis
  and has no line break (as every column expression of a normalized query), the
  pattern of the explicit alias matches with group \<open>ident\<close> exactly when the expression
  is a non-empty text, whitespace, \<^verbatim>\<open>AS\<close> in any case, whitespace, and the
  identifier word \<open>ident\<close>, and then \<open>ident\<close> is the name. The identifier word is any
  non-empty run of letters, digits and underscores: it may start with a digit.
\<close>

theorem C5_explicit_alias:
  assumes "\<not> startsWith (trim e) ''(''" and "\<not> list_ex is_line_terminator e"
  shows "(as_search e = Some ident) = explicit_alias e ident
     \<and> (explicit_alias e ident \<longrightarrow> extractColumnName this e = ident)"
proof -
  have 1: "(as_search e = Some ident) = explicit_alias e ident"
    using assms(2) by (rule as_search_iff)
  have "extractColumnName this e = ident" if "as_search e = Some ident"
    using assms(1) that by (simp add: extractColumnName_def)
  with 1 show ?thesis by blast
qed

theorem C5_explicit_alias_witness:
  "extractColumnName SQLQueryAnalyzer ''COUNT(id) as total_users'' = ''total_users''
   \<and> explicit_alias ''COUNT(id) as total_users'' ''total_users''"
proof -
  let ?e = "''COUNT(id) as total_users''"
  have h: "\<not> startsWith (trim ?e) ''(''" "\<not> list_ex is_line_terminator ?e"
    by code_simp+
  have s: "as_search ?e = Some ''total_users''" by code_simp
  note t = C5_explicit_alias [OF h, of "''total_users''" SQLQueryAnalyzer]
  from t s have x: "explicit_alias ?e ''total_users''" by blast
  with t show ?thesis by blast
qed

text \<open>
  The claim as stated fails: the word after \<^verbatim>\<open>AS\<close> starts with a digit, and the rule
  fires.
\<close>

theorem C5_counterexample:
  "\<not> startsWith (trim ''x AS 1a'') ''(''
   \<and> is_digit (hd ''1a'')
   \<and> as_search ''x AS 1a'' = Some ''1a''
   \<and> extractColumnName SQLQueryAnalyzer ''x AS 1a'' = ''1a''"
  by code_simp

subsection \<open>Determinism\<close>







end
